theory Spec2Isabelle
  imports Main "HOL-Library.AList"
begin

section \<open>Graceful shutdown of an HTTP server: a model of \<open>lib/index.js\<close>\<close>

text \<open>
  The module keeps three variables at module scope (\<open>isShuttingDown\<close>,
  \<open>connections\<close>, \<open>connectionCounter\<close>) and installs handlers on the process, the
  server and every accepted socket. The model is a state record holding those variables,
  the socket objects, the callbacks the library has handed to the runtime (the listener of
  \<open>server.close\<close>, the timers, the handlers attached to a promise returned by the user
  callback), the fate of the process, and the sequence of calls the library has made on
  its collaborators. Every handler is a function from state to state; the runtime
  delivering an event is one application of \<open>step\<close>.
\<close>

subsection \<open>Options\<close>

text \<open>
  What one invocation of the user callback hands back: a value that is not a thenable
  (including \<open>undefined\<close>), or an object with a \<open>then\<close> method. A thenable is taken to
  behave like a promise: it calls at most one of the two handlers, and only after the
  current handler has returned.
\<close>

datatype callback_result = Returns_plain | Returns_thenable

text \<open>The object passed by the caller: an omitted property reads \<open>undefined\<close> (\<open>None\<close>).\<close>

record raw_options =
  opt_signals :: "string option"
  opt_timeout :: "nat option"
  opt_development :: "bool option"
  opt_callback :: "callback_result option"

record options =
  signals :: string
  timeout :: nat
  development :: bool
  callback :: "callback_result option"

text \<open>
  \<open>opts = opts || {}\<close> followed by \<open>_.defaults(opts, {signals: 'SIGINT SIGTERM',
  timeout: 30000, development: false})\<close>: a property that is \<open>undefined\<close> in \<open>opts\<close>
  takes the value of the second object; \<open>callback\<close> has no default.
\<close>

definition defaults :: "raw_options option \<Rightarrow> options" where
  "defaults opts =
     (let r = (case opts of
                 None \<Rightarrow> \<lparr>opt_signals = None, opt_timeout = None,
                          opt_development = None, opt_callback = None\<rparr>
               | Some given \<Rightarrow> given)
      in \<lparr>signals = (case opt_signals r of None \<Rightarrow> ''SIGINT SIGTERM'' | Some x \<Rightarrow> x),
          timeout = (case opt_timeout r of None \<Rightarrow> 30000 | Some t \<Rightarrow> t),
          development = (case opt_development r of None \<Rightarrow> False | Some d \<Rightarrow> d),
          callback = opt_callback r\<rparr>)"

text \<open>\<open>String.prototype.split\<close> with a one-character separator.\<close>

fun js_split :: "char \<Rightarrow> string \<Rightarrow> string list" where
  "js_split c [] = [[]]"
| "js_split c (x # xs) =
     (if x = c then [] # js_split c xs
      else (case js_split c xs of
              [] \<Rightarrow> [[x]]
            | w # ws \<Rightarrow> (x # w) # ws))"

text \<open>
  \<open>options.signals.split(' ').forEach(...)\<close>: one \<open>process.on(signal, ...)\<close> for every
  non-empty piece, in order, a name written twice being subscribed twice.
\<close>

definition subscribed :: "options \<Rightarrow> string list" where
  "subscribed opts = filter (\<lambda>signal. signal \<noteq> []) (js_split CHR '' '' (signals opts))"

subsection \<open>State\<close>

text \<open>
  A socket object: the two properties the library tags it with, whether
  \<open>socket.destroy()\<close> has been called on it, and the identifiers captured by the
  \<open>'close'\<close> listeners the library attached. \<open>_isIdle\<close> is only ever tested for
  truthiness, so \<open>undefined\<close> is \<open>False\<close>.
\<close>

record socket =
  isIdle :: bool
  connectionId :: "nat option"
  destroyed :: bool
  closeIds :: "nat list"

datatype debug_msg =
    Shutdown_signal string
  | Dev_mode
  | Shutting_down
  | Connections_destroyed nat
  | Connection_counter nat
  | Could_not_close nat

text \<open>The calls the library makes on its collaborators, in the order it makes them.\<close>

datatype effect =
    ServerClose
  | SocketDestroy nat
  | SetTimeout nat
  | CallbackCall
  | ProcessExit nat
  | Debug debug_msg

text \<open>
  \<open>process.exit\<close> does not return, and an exception nobody catches ends the handler
  that raised it: in both cases nothing of the library runs afterwards.
\<close>

datatype process = Running | Exited nat | Uncaught_TypeError

text \<open>
  \<open>connections\<close> is an object used as a dictionary from identifier to socket; sockets
  are referred to by their position in \<open>sockets\<close>. \<open>closeCallbacks\<close> counts the
  functions given to \<open>server.close\<close> that wait for the server's \<open>'close'\<close> event,
  \<open>timers\<close> lists the delays of the armed timers, \<open>pending\<close> counts the promises of
  the user callback whose handlers have not run yet. \<open>unref()\<close> on a timer only
  decides whether the timer alone keeps the process alive; whether and when an armed
  timer fires is the runtime's choice, an event of the model. \<open>connectionCounter\<close> is
  a JavaScript number, counted here in \<open>nat\<close>: the two agree below \<open>2 ^ 53\<close> connections.
\<close>

record state =
  isShuttingDown :: bool
  connections :: "(nat \<times> nat) list"
  connectionCounter :: nat
  sockets :: "socket list"
  closeCallbacks :: nat
  timers :: "nat list"
  pending :: nat
  proc :: process
  trace :: "effect list"

definition initial :: state where
  "initial = \<lparr>isShuttingDown = False, connections = [], connectionCounter = 0,
              sockets = [], closeCallbacks = 0, timers = [], pending = 0,
              proc = Running, trace = []\<rparr>"

definition emit :: "effect \<Rightarrow> state \<Rightarrow> state" where
  "emit e s = s\<lparr>trace := trace s @ [e]\<rparr>"

definition debug :: "debug_msg \<Rightarrow> state \<Rightarrow> state" where
  "debug m s = emit (Debug m) s"

text \<open>
  \<open>Object.keys\<close> lists integer-like keys in ascending order, each key once.
\<close>

definition Object_keys :: "(nat \<times> nat) list \<Rightarrow> nat list" where
  "Object_keys c = sort (remdups (map fst c))"

subsection \<open>The functions of \<open>GracefulShutdown\<close>\<close>

text \<open>
  \<open>destroy(socket)\<close>. The argument is what \<open>connections[key]\<close> evaluated to, so it may
  be \<open>undefined\<close>, and reading \<open>_isIdle\<close> of \<open>undefined\<close> throws. A reference to no
  socket object cannot exist in the program; the model treats it like \<open>undefined\<close>.
\<close>

definition destroy :: "nat option \<Rightarrow> state \<Rightarrow> state" where
  "destroy ref s =
     (case ref of
        None \<Rightarrow> s\<lparr>proc := Uncaught_TypeError\<rparr>
      | Some a \<Rightarrow>
          if a < length (sockets s) then
            (let so = sockets s ! a in
             if isIdle so \<and> isShuttingDown s then
               (let s1 = emit (SocketDestroy a)
                           (s\<lparr>sockets := (sockets s)[a := so\<lparr>destroyed := True\<rparr>]\<rparr>)
                in (case connectionId so of
                      None \<Rightarrow> s1
                    | Some i \<Rightarrow> s1\<lparr>connections := AList.delete i (connections s1)\<rparr>))
             else s)
          else s\<lparr>proc := Uncaught_TypeError\<rparr>)"

text \<open>\<open>exit(err)\<close>: the \<open>debug\<close> call after \<open>process.exit(1)\<close> is never reached.\<close>

definition exit :: "state \<Rightarrow> state" where
  "exit s = (emit (ProcessExit 1) s)\<lparr>proc := Exited 1\<rparr>"

definition handleCallbackThenExit :: "options \<Rightarrow> state \<Rightarrow> state" where
  "handleCallbackThenExit opts s =
     (case callback opts of
        None \<Rightarrow> exit s
      | Some cb \<Rightarrow>
          (let s1 = emit CallbackCall s in
           case cb of
             Returns_thenable \<Rightarrow> s1\<lparr>pending := pending s1 + 1\<rparr>
           | Returns_plain \<Rightarrow> exit s1))"

text \<open>
  \<open>Object.keys(connections).forEach(function(key) { counter++;
  destroy(connections[key]); })\<close>: the keys are fixed before the loop starts, each value
  is read when its turn comes, and an exception leaves the loop.
\<close>

fun forEach_key :: "nat list \<Rightarrow> nat \<times> state \<Rightarrow> nat \<times> state" where
  "forEach_key [] cs = cs"
| "forEach_key (key # keys) (counter, s) =
     (let s1 = destroy (map_of (connections s) key) s in
      if proc s1 = Running then forEach_key keys (counter + 1, s1)
      else (counter + 1, s1))"

text \<open>The body of \<open>if (!isShuttingDown) { ... }\<close> in \<open>shutdown\<close>.\<close>

definition normal_shutdown :: "options \<Rightarrow> state \<Rightarrow> state" where
  "normal_shutdown opts s =
     (let s1 = debug Shutting_down (s\<lparr>isShuttingDown := True\<rparr>);
          s2 = emit ServerClose (s1\<lparr>closeCallbacks := closeCallbacks s1 + 1\<rparr>);
          (counter, s3) = forEach_key (Object_keys (connections s2)) (0, s2)
      in if proc s3 \<noteq> Running then s3
         else
           (let s4 = debug (Connections_destroyed counter) s3;
                s5 = debug (Connection_counter (connectionCounter s4)) s4
            in emit (SetTimeout (timeout opts)) (s5\<lparr>timers := timers s5 @ [timeout opts]\<rparr>)))"

definition shutdown :: "options \<Rightarrow> string \<Rightarrow> state \<Rightarrow> state" where
  "shutdown opts sig s =
     (let s1 = debug (Shutdown_signal sig) s;
          s2 = (if development opts
                then handleCallbackThenExit opts (debug Dev_mode s1)
                else s1)
      in if proc s2 \<noteq> Running then s2
         else if \<not> isShuttingDown s2 then normal_shutdown opts s2
         else s2)"

subsection \<open>Handlers and events\<close>

text \<open>
  \<open>server.on('connection', ...)\<close>: the server hands over a socket object it has just
  created.
\<close>

definition on_connection :: "state \<Rightarrow> state" where
  "on_connection s =
     (let a = length (sockets s); id = connectionCounter s
      in s\<lparr>connectionCounter := id + 1,
           sockets := sockets s @ [\<lparr>isIdle = True, connectionId = Some id,
                                    destroyed = False, closeIds = [id]\<rparr>],
           connections := AList.update id a (connections s)\<rparr>)"

text \<open>\<open>server.on('request', ...)\<close>, for a request on socket \<open>a\<close>.\<close>

definition on_request :: "nat \<Rightarrow> state \<Rightarrow> state" where
  "on_request a s = s\<lparr>sockets := (sockets s)[a := (sockets s ! a)\<lparr>isIdle := False\<rparr>]\<rparr>"

text \<open>\<open>res.on('finish', ...)\<close>, for a response on socket \<open>a\<close>.\<close>

definition on_finish :: "nat \<Rightarrow> state \<Rightarrow> state" where
  "on_finish a s =
     destroy (Some a) (s\<lparr>sockets := (sockets s)[a := (sockets s ! a)\<lparr>isIdle := True\<rparr>]\<rparr>)"

text \<open>\<open>socket.on('close', function() { delete connections[id]; })\<close>.\<close>

definition on_close :: "nat \<Rightarrow> state \<Rightarrow> state" where
  "on_close a s =
     s\<lparr>connections := fold AList.delete (closeIds (sockets s ! a)) (connections s)\<rparr>"

text \<open>
  A signal runs the listeners subscribed under its name, in the order of subscription,
  as long as the process lives.
\<close>

fun on_signal :: "options \<Rightarrow> string \<Rightarrow> string list \<Rightarrow> state \<Rightarrow> state" where
  "on_signal opts sig [] s = s"
| "on_signal opts sig (signal # rest) s =
     (if proc s \<noteq> Running then s
      else on_signal opts sig rest (if signal = sig then shutdown opts signal s else s))"

text \<open>The server's \<open>'close'\<close> event runs every function given to \<open>server.close\<close>.\<close>

fun close_listeners :: "options \<Rightarrow> nat \<Rightarrow> state \<Rightarrow> state" where
  "close_listeners opts 0 s = s"
| "close_listeners opts (Suc n) s =
     (if proc s \<noteq> Running then s
      else close_listeners opts n (handleCallbackThenExit opts s))"

definition on_server_closed :: "options \<Rightarrow> state \<Rightarrow> state" where
  "on_server_closed opts s = close_listeners opts (closeCallbacks s) (s\<lparr>closeCallbacks := 0\<rparr>)"

text \<open>The function given to \<open>setTimeout\<close>, for the timer armed first.\<close>

definition on_timeout :: "options \<Rightarrow> state \<Rightarrow> state" where
  "on_timeout opts s =
     (case timers s of
        [] \<Rightarrow> s
      | t # ts \<Rightarrow> handleCallbackThenExit opts
                   (debug (Could_not_close (timeout opts)) (s\<lparr>timers := ts\<rparr>)))"

text \<open>
  A promise of the user callback settles: both handlers given to \<open>then\<close> call \<open>exit\<close>.
\<close>

definition on_settled :: "state \<Rightarrow> state" where
  "on_settled s = (if pending s = 0 then s else exit (s\<lparr>pending := pending s - 1\<rparr>))"

datatype outcome = Resolved | Rejected

datatype event =
    Connection
  | Request nat
  | Finish nat
  | SocketClosed nat
  | Signal string
  | ServerClosed
  | TimerFired
  | Settled outcome

text \<open>
  One event delivered by the runtime. A process that is gone receives nothing, and an
  event names a socket that exists.
\<close>

definition step :: "options \<Rightarrow> event \<Rightarrow> state \<Rightarrow> state" where
  "step opts e s =
     (if proc s \<noteq> Running then s
      else (case e of
              Connection \<Rightarrow> on_connection s
            | Request a \<Rightarrow> if a < length (sockets s) then on_request a s else s
            | Finish a \<Rightarrow> if a < length (sockets s) then on_finish a s else s
            | SocketClosed a \<Rightarrow> if a < length (sockets s) then on_close a s else s
            | Signal sig \<Rightarrow> on_signal opts sig (subscribed opts) s
            | ServerClosed \<Rightarrow> on_server_closed opts s
            | TimerFired \<Rightarrow> on_timeout opts s
            | Settled r \<Rightarrow> on_settled s))"

definition run :: "options \<Rightarrow> event list \<Rightarrow> state \<Rightarrow> state" where
  "run opts evs s = fold (step opts) evs s"

subsection \<open>Notions used in the statements and proofs\<close>

text \<open>
  The registry is well formed when it is a dictionary (no key twice) whose values are
  existing sockets, each tagged with the key it is stored under. Every state the
  handlers can reach from \<open>initial\<close> is well formed (\<open>registry_wf_run\<close> below).
\<close>

definition registry_wf :: "state \<Rightarrow> bool" where
  "registry_wf s \<longleftrightarrow> distinct (map fst (connections s)) \<and>
     (\<forall>(k, a) \<in> set (connections s). a < length (sockets s) \<and> connectionId (sockets s ! a) = Some k)"

text \<open>
  The steps of the drain sequence as they show in the trace: closing the listener,
  destroying a socket, the log line that follows the sweep, arming the timer.
\<close>

fun drain_step :: "effect \<Rightarrow> bool" where
  "drain_step ServerClose = True"
| "drain_step (SocketDestroy a) = True"
| "drain_step (SetTimeout t) = True"
| "drain_step (Debug (Connections_destroyed n)) = True"
| "drain_step e = False"

definition drain_steps :: "state \<Rightarrow> effect list" where
  "drain_steps s = filter drain_step (trace s)"

text \<open>The two halves of \<open>normal_shutdown\<close>, before and after the loop.\<close>

definition begin_drain :: "state \<Rightarrow> state" where
  "begin_drain s =
     (let s1 = debug Shutting_down (s\<lparr>isShuttingDown := True\<rparr>)
      in emit ServerClose (s1\<lparr>closeCallbacks := closeCallbacks s1 + 1\<rparr>))"

definition end_drain :: "options \<Rightarrow> nat \<Rightarrow> state \<Rightarrow> state" where
  "end_drain opts counter s3 =
     (let s4 = debug (Connections_destroyed counter) s3;
          s5 = debug (Connection_counter (connectionCounter s4)) s4
      in emit (SetTimeout (timeout opts)) (s5\<lparr>timers := timers s5 @ [timeout opts]\<rparr>))"

text \<open>The only status \<open>process.exit\<close> is ever called with.\<close>

fun status_ok :: "process \<Rightarrow> bool" where
  "status_ok (Exited c) = (c = 1)"
| "status_ok p = True"

text \<open>
  A transition that leaves the idle marks alone, keeps the flag once it is set, and calls
  \<open>socket.destroy()\<close> only on sockets marked idle, with the flag set.
\<close>

definition gentle :: "state \<Rightarrow> state \<Rightarrow> bool" where
  "gentle s s' \<longleftrightarrow>
     map isIdle (sockets s') = map isIdle (sockets s)
     \<and> (isShuttingDown s \<longrightarrow> isShuttingDown s')
     \<and> (\<exists>new. trace s' = trace s @ new
           \<and> (\<forall>a. SocketDestroy a \<in> set new \<longrightarrow>
                 a < length (sockets s) \<and> isIdle (sockets s ! a) \<and> isShuttingDown s'))"

text \<open>The state in which \<open>shutdown\<close> reaches its test of the flag.\<close>

definition before_drain :: "options \<Rightarrow> string \<Rightarrow> state \<Rightarrow> state" where
  "before_drain opts sig s =
     (if development opts
      then handleCallbackThenExit opts (debug Dev_mode (debug (Shutdown_signal sig) s))
      else debug (Shutdown_signal sig) s)"

text \<open>
  The requests in progress, in the words of the specification: a connection is in the
  middle of a request/response cycle when a request on it has begun whose response has not
  finished. \<open>open_requests\<close> counts them for every socket from the events delivered so
  far; it is not a variable of the program. A sequence of events is \<open>serial\<close> when on
  every connection a request begins only after the previous response has finished.
\<close>

fun track_step :: "event \<Rightarrow> nat list \<Rightarrow> nat list" where
  "track_step Connection t = t @ [0]"
| "track_step (Request a) t = (if a < length t then t[a := t ! a + 1] else t)"
| "track_step (Finish a) t = (if a < length t then t[a := t ! a - 1] else t)"
| "track_step e t = t"

definition open_requests :: "event list \<Rightarrow> nat list" where
  "open_requests evs = fold track_step evs []"

fun one_at_a_time :: "nat list \<Rightarrow> event \<Rightarrow> bool" where
  "one_at_a_time t (Request a) = (a < length t \<and> t ! a = 0)"
| "one_at_a_time t (Finish a) = (a < length t \<and> t ! a = 1)"
| "one_at_a_time t e = True"

fun serial_from :: "nat list \<Rightarrow> event list \<Rightarrow> bool" where
  "serial_from t [] = True"
| "serial_from t (e # es) = (one_at_a_time t e \<and> serial_from (track_step e t) es)"

definition serial :: "event list \<Rightarrow> bool" where
  "serial evs = serial_from [] evs"

section \<open>Properties of the handlers\<close>

subsection \<open>The registry invariant and one call of \<open>destroy\<close>\<close>

lemma registry_wfD:
  "registry_wf s \<Longrightarrow> (k, a) \<in> set (connections s) \<Longrightarrow>
     a < length (sockets s) \<and> connectionId (sockets s ! a) = Some k"
  by (auto simp: registry_wf_def)

lemma registry_wfI:
  "distinct (map fst (connections s)) \<Longrightarrow>
   (\<And>k a. (k, a) \<in> set (connections s) \<Longrightarrow>
       a < length (sockets s) \<and> connectionId (sockets s ! a) = Some k) \<Longrightarrow> registry_wf s"
  by (auto simp: registry_wf_def)

lemma set_delete: "set (AList.delete k al) = {p \<in> set al. fst p \<noteq> k}"
  by (auto simp: AList.delete_eq)

lemma destroy_flag [simp]: "isShuttingDown (destroy r s) = isShuttingDown s"
  by (simp add: destroy_def emit_def Let_def split: option.splits)

lemma destroy_skip:
  assumes "a < length (sockets s)" "\<not> (isIdle (sockets s ! a) \<and> isShuttingDown s)"
  shows "destroy (Some a) s = s"
  using assms by (auto simp: destroy_def Let_def)

lemma destroy_reap:
  assumes "registry_wf s" "map_of (connections s) k = Some a"
    and "isIdle (sockets s ! a)" "isShuttingDown s"
  shows "destroy (Some a) s =
     s\<lparr>sockets := (sockets s)[a := (sockets s ! a)\<lparr>destroyed := True\<rparr>],
       trace := trace s @ [SocketDestroy a],
       connections := AList.delete k (connections s)\<rparr>"
proof -
  from assms(2) have "(k, a) \<in> set (connections s)" by (rule map_of_SomeD)
  from registry_wfD[OF assms(1) this] assms(3,4)
  show ?thesis by (simp add: destroy_def emit_def Let_def)
qed

lemma registry_wf_destroy:
  assumes "registry_wf s" "map_of (connections s) k = Some a"
  shows "registry_wf (destroy (Some a) s)"
proof (cases "isIdle (sockets s ! a) \<and> isShuttingDown s")
  case False
  from assms(2) have "(k, a) \<in> set (connections s)" by (rule map_of_SomeD)
  from registry_wfD[OF assms(1) this] False assms(1)
  show ?thesis by (simp add: destroy_skip)
next
  case True
  then have eq: "destroy (Some a) s =
     s\<lparr>sockets := (sockets s)[a := (sockets s ! a)\<lparr>destroyed := True\<rparr>],
       trace := trace s @ [SocketDestroy a],
       connections := AList.delete k (connections s)\<rparr>"
    using destroy_reap[OF assms] by simp
  show ?thesis
  proof (rule registry_wfI)
    show "distinct (map fst (connections (destroy (Some a) s)))"
      using assms(1) by (simp add: eq registry_wf_def AList.distinct_delete)
  next
    fix k' a'
    assume "(k', a') \<in> set (connections (destroy (Some a) s))"
    then have "(k', a') \<in> set (connections s)"
      by (simp add: eq set_delete)
    from registry_wfD[OF assms(1) this]
    show "a' < length (sockets (destroy (Some a) s)) \<and>
          connectionId (sockets (destroy (Some a) s) ! a') = Some k'"
      by (cases "a' = a") (simp_all add: eq)
  qed
qed

subsection \<open>The loop over the registry\<close>

lemma destroy_at_key:
  assumes "registry_wf s" "map_of (connections s) k = Some a"
  shows "proc (destroy (Some a) s) = proc s"
    and "length (sockets (destroy (Some a) s)) = length (sockets s)"
    and "isIdle (sockets (destroy (Some a) s) ! b) = isIdle (sockets s ! b)"
    and "k' \<noteq> k \<Longrightarrow> map_of (connections (destroy (Some a) s)) k' = map_of (connections s) k'"
proof -
  from assms(2) have "(k, a) \<in> set (connections s)" by (rule map_of_SomeD)
  from registry_wfD[OF assms(1) this] have a: "a < length (sockets s)" "connectionId (sockets s ! a) = Some k"
    by simp_all
  show "proc (destroy (Some a) s) = proc s"
    using a by (simp add: destroy_def emit_def Let_def)
  show "length (sockets (destroy (Some a) s)) = length (sockets s)"
    using a by (simp add: destroy_def emit_def Let_def)
  show "isIdle (sockets (destroy (Some a) s) ! b) = isIdle (sockets s ! b)"
    using a by (cases "b = a") (simp_all add: destroy_def emit_def Let_def)
  show "k' \<noteq> k \<Longrightarrow> map_of (connections (destroy (Some a) s)) k' = map_of (connections s) k'"
    using a by (simp add: destroy_def emit_def Let_def)
qed

lemma forEach_key_Cons:
  assumes "map_of (connections s) k = Some a" "proc (destroy (Some a) s) = Running"
  shows "forEach_key (k # ks) (c, s) = forEach_key ks (Suc c, destroy (Some a) s)"
  using assms by simp

lemma sweep_inv:
  assumes "registry_wf s" "proc s = Running" "distinct ks" "set ks \<subseteq> fst ` set (connections s)"
  shows "registry_wf (snd (forEach_key ks (c, s))) \<and> proc (snd (forEach_key ks (c, s))) = Running
       \<and> fst (forEach_key ks (c, s)) = c + length ks
       \<and> length (sockets (snd (forEach_key ks (c, s)))) = length (sockets s)
       \<and> (\<forall>b. isIdle (sockets (snd (forEach_key ks (c, s))) ! b) = isIdle (sockets s ! b))"
  using assms
proof (induction ks arbitrary: c s)
  case Nil
  then show ?case by simp
next
  case (Cons k ks)
  from Cons.prems(4) have "map_of (connections s) k \<noteq> None"
    by (simp add: map_of_eq_None_iff)
  then obtain a where a: "map_of (connections s) k = Some a" by auto
  let ?s1 = "destroy (Some a) s"
  note st = destroy_at_key[OF Cons.prems(1) a]
  have p1: "proc ?s1 = Running" using st(1) Cons.prems(2) by simp
  have w1: "registry_wf ?s1" by (rule registry_wf_destroy[OF Cons.prems(1) a])
  have sub: "set ks \<subseteq> fst ` set (connections ?s1)"
  proof
    fix k' assume k': "k' \<in> set ks"
    with Cons.prems(3) have ne: "k' \<noteq> k" by auto
    from k' Cons.prems(4) have "map_of (connections s) k' \<noteq> None"
      by (auto simp: map_of_eq_None_iff)
    with st(4)[OF ne] have "map_of (connections ?s1) k' \<noteq> None" by simp
    then show "k' \<in> fst ` set (connections ?s1)" by (simp add: map_of_eq_None_iff)
  qed
  from Cons.prems(3) have d: "distinct ks" by simp
  from Cons.IH[OF w1 p1 d sub, of "Suc c"] st(2,3)
  show ?case unfolding forEach_key_Cons[OF a p1] by simp
qed

lemma map_of_unique:
  "distinct (map fst al) \<Longrightarrow> map_of al k = Some a \<Longrightarrow> (k, b) \<in> set al \<Longrightarrow> b = a"
  by (metis map_of_is_SomeI option.inject)

lemma sweep_connections:
  assumes "registry_wf s" "proc s = Running" "isShuttingDown s" "distinct ks"
    "set ks \<subseteq> fst ` set (connections s)"
  shows "connections (snd (forEach_key ks (c, s))) =
           filter (\<lambda>(k, a). \<not> (k \<in> set ks \<and> isIdle (sockets s ! a))) (connections s)"
  using assms
proof (induction ks arbitrary: c s)
  case Nil
  then show ?case by simp
next
  case (Cons k ks)
  from Cons.prems(5) have "map_of (connections s) k \<noteq> None"
    by (simp add: map_of_eq_None_iff)
  then obtain a where a: "map_of (connections s) k = Some a" by auto
  let ?s1 = "destroy (Some a) s"
  note st = destroy_at_key[OF Cons.prems(1) a]
  have p1: "proc ?s1 = Running" using st(1) Cons.prems(2) by simp
  have w1: "registry_wf ?s1" by (rule registry_wf_destroy[OF Cons.prems(1) a])
  have f1: "isShuttingDown ?s1" using Cons.prems(3) by simp
  have sub: "set ks \<subseteq> fst ` set (connections ?s1)"
  proof
    fix k' assume k': "k' \<in> set ks"
    with Cons.prems(4) have ne: "k' \<noteq> k" by auto
    from k' Cons.prems(5) have "map_of (connections s) k' \<noteq> None"
      by (auto simp: map_of_eq_None_iff)
    with st(4)[OF ne] have "map_of (connections ?s1) k' \<noteq> None" by simp
    then show "k' \<in> fst ` set (connections ?s1)" by (simp add: map_of_eq_None_iff)
  qed
  from Cons.prems(4) have d: "distinct ks" and nk: "k \<notin> set ks" by simp_all
  have dk: "distinct (map fst (connections s))" using Cons.prems(1) by (simp add: registry_wf_def)
  have uniq: "\<And>b. (k, b) \<in> set (connections s) \<Longrightarrow> b = a"
    using map_of_unique[OF dk a] .
  have ih: "connections (snd (forEach_key (k # ks) (c, s))) =
      filter (\<lambda>(k, a). \<not> (k \<in> set ks \<and> isIdle (sockets s ! a))) (connections ?s1)"
    unfolding forEach_key_Cons[OF a p1]
    using Cons.IH[OF w1 p1 f1 d sub, of "Suc c"] st(3) by simp
  show ?case
  proof (cases "isIdle (sockets s ! a)")
    case True
    have "connections ?s1 = AList.delete k (connections s)"
      using destroy_reap[OF Cons.prems(1) a True Cons.prems(3)] by simp
    then show ?thesis
      unfolding ih using uniq True nk
      by (auto simp: AList.delete_eq intro!: filter_cong)
  next
    case False
    from a have "(k, a) \<in> set (connections s)" by (rule map_of_SomeD)
    from registry_wfD[OF Cons.prems(1) this] False
    have "?s1 = s" by (simp add: destroy_skip)
    then show ?thesis
      unfolding ih using uniq False nk
      by (auto intro!: filter_cong)
  qed
qed

lemma sweep_step:
  assumes "registry_wf s" "proc s = Running" "distinct (k # ks)" "set (k # ks) \<subseteq> fst ` set (connections s)"
  obtains a where "map_of (connections s) k = Some a"
    and "registry_wf (destroy (Some a) s)" and "proc (destroy (Some a) s) = Running"
    and "set ks \<subseteq> fst ` set (connections (destroy (Some a) s))"
    and "\<And>c. forEach_key (k # ks) (c, s) = forEach_key ks (Suc c, destroy (Some a) s)"
proof -
  from assms(4) have "map_of (connections s) k \<noteq> None"
    by (simp add: map_of_eq_None_iff)
  then obtain a where a: "map_of (connections s) k = Some a" by auto
  let ?s1 = "destroy (Some a) s"
  note st = destroy_at_key[OF assms(1) a]
  have p1: "proc ?s1 = Running" using st(1) assms(2) by simp
  have w1: "registry_wf ?s1" by (rule registry_wf_destroy[OF assms(1) a])
  have sub: "set ks \<subseteq> fst ` set (connections ?s1)"
  proof
    fix k' assume k': "k' \<in> set ks"
    with assms(3) have ne: "k' \<noteq> k" by auto
    from k' assms(4) have "map_of (connections s) k' \<noteq> None"
      by (auto simp: map_of_eq_None_iff)
    with st(4)[OF ne] have "map_of (connections ?s1) k' \<noteq> None" by simp
    then show "k' \<in> fst ` set (connections ?s1)" by (simp add: map_of_eq_None_iff)
  qed
  show thesis
    by (rule that[OF a w1 p1 sub]) (rule forEach_key_Cons[OF a p1])
qed

lemma key_of_socket:
  assumes "registry_wf s" "map_of (connections s) k = Some a" "map_of (connections s) k' = Some a"
  shows "k' = k"
proof -
  from assms(2) have "(k, a) \<in> set (connections s)" by (rule map_of_SomeD)
  from registry_wfD[OF assms(1) this] have 1: "connectionId (sockets s ! a) = Some k" by simp
  from assms(3) have "(k', a) \<in> set (connections s)" by (rule map_of_SomeD)
  from registry_wfD[OF assms(1) this] have "connectionId (sockets s ! a) = Some k'" by simp
  with 1 show ?thesis by simp
qed

lemma sweep_sockets:
  assumes "registry_wf s" "proc s = Running" "isShuttingDown s" "distinct ks"
    "set ks \<subseteq> fst ` set (connections s)" "b < length (sockets s)"
  shows "sockets (snd (forEach_key ks (c, s))) ! b =
           (if (\<exists>k\<in>set ks. map_of (connections s) k = Some b) \<and> isIdle (sockets s ! b)
            then (sockets s ! b)\<lparr>destroyed := True\<rparr> else sockets s ! b)"
  using assms
proof (induction ks arbitrary: c s)
  case Nil
  then show ?case by simp
next
  case (Cons k ks)
  from sweep_step[OF Cons.prems(1,2,4,5)]
  obtain a where a: "map_of (connections s) k = Some a"
    and w1: "registry_wf (destroy (Some a) s)" and p1: "proc (destroy (Some a) s) = Running"
    and sub: "set ks \<subseteq> fst ` set (connections (destroy (Some a) s))"
    and eq: "\<And>c. forEach_key (k # ks) (c, s) = forEach_key ks (Suc c, destroy (Some a) s)"
    by blast
  let ?s1 = "destroy (Some a) s"
  note st = destroy_at_key[OF Cons.prems(1) a]
  from Cons.prems(4) have d: "distinct ks" and nk: "k \<notin> set ks" by simp_all
  have f1: "isShuttingDown ?s1" using Cons.prems(3) by simp
  have b1: "b < length (sockets ?s1)" using st(2) Cons.prems(6) by simp
  have same: "map_of (connections ?s1) k' = map_of (connections s) k'" if "k' \<in> set ks" for k'
  proof -
    from that nk have "k' \<noteq> k" by auto
    then show ?thesis by (rule st(4))
  qed
  have ih: "sockets (snd (forEach_key (k # ks) (c, s))) ! b =
           (if (\<exists>k\<in>set ks. map_of (connections s) k = Some b) \<and> isIdle (sockets s ! b)
            then (sockets ?s1 ! b)\<lparr>destroyed := True\<rparr> else sockets ?s1 ! b)"
    unfolding eq using Cons.IH[OF w1 p1 f1 d sub b1, of "Suc c"] st(3) same by auto
  from a have ka: "(k, a) \<in> set (connections s)" by (rule map_of_SomeD)
  note va = registry_wfD[OF Cons.prems(1) ka]
  have other: "\<And>k'. k' \<in> set ks \<Longrightarrow> map_of (connections s) k' \<noteq> Some a"
    using key_of_socket[OF Cons.prems(1) a] nk by blast
  show ?case
  proof (cases "isIdle (sockets s ! a)")
    case True
    have s1: "sockets ?s1 = (sockets s)[a := (sockets s ! a)\<lparr>destroyed := True\<rparr>]"
      using destroy_reap[OF Cons.prems(1) a True Cons.prems(3)] by simp
    show ?thesis
    proof (cases "b = a")
      case True
      then show ?thesis unfolding ih s1 using a va other \<open>isIdle (sockets s ! a)\<close> by auto
    next
      case False
      then show ?thesis unfolding ih s1 using a by auto
    qed
  next
    case False
    with va have "?s1 = s" by (simp add: destroy_skip)
    then show ?thesis unfolding ih using a False by auto
  qed
qed

lemma sweep_trace:
  assumes "registry_wf s" "proc s = Running" "isShuttingDown s" "distinct ks"
    "set ks \<subseteq> fst ` set (connections s)"
  shows "\<exists>ds. trace (snd (forEach_key ks (c, s))) = trace s @ map SocketDestroy ds \<and> distinct ds
           \<and> set ds = {b. (\<exists>k\<in>set ks. map_of (connections s) k = Some b) \<and> isIdle (sockets s ! b)}"
  using assms
proof (induction ks arbitrary: c s)
  case Nil
  then show ?case by simp
next
  case (Cons k ks)
  from sweep_step[OF Cons.prems(1,2,4,5)]
  obtain a where a: "map_of (connections s) k = Some a"
    and w1: "registry_wf (destroy (Some a) s)" and p1: "proc (destroy (Some a) s) = Running"
    and sub: "set ks \<subseteq> fst ` set (connections (destroy (Some a) s))"
    and eq: "\<And>c. forEach_key (k # ks) (c, s) = forEach_key ks (Suc c, destroy (Some a) s)"
    by blast
  let ?s1 = "destroy (Some a) s"
  note st = destroy_at_key[OF Cons.prems(1) a]
  from Cons.prems(4) have d: "distinct ks" and nk: "k \<notin> set ks" by simp_all
  have f1: "isShuttingDown ?s1" using Cons.prems(3) by simp
  have same: "map_of (connections ?s1) k' = map_of (connections s) k'" if "k' \<in> set ks" for k'
  proof -
    from that nk have "k' \<noteq> k" by auto
    then show ?thesis by (rule st(4))
  qed
  let ?R = "{b. (\<exists>k\<in>set ks. map_of (connections s) k = Some b) \<and> isIdle (sockets s ! b)}"
  from Cons.IH[OF w1 p1 f1 d sub, of "Suc c"]
  obtain ds where ds: "trace (snd (forEach_key ks (Suc c, ?s1))) = trace ?s1 @ map SocketDestroy ds"
    "distinct ds"
    "set ds = {b. (\<exists>k\<in>set ks. map_of (connections ?s1) k = Some b) \<and> isIdle (sockets ?s1 ! b)}"
    by blast
  have dsR: "set ds = ?R" unfolding ds(3) using same st(3) by auto
  from a have ka: "(k, a) \<in> set (connections s)" by (rule map_of_SomeD)
  note va = registry_wfD[OF Cons.prems(1) ka]
  have other: "\<And>k'. k' \<in> set ks \<Longrightarrow> map_of (connections s) k' \<noteq> Some a"
    using key_of_socket[OF Cons.prems(1) a] nk by blast
  show ?case
  proof (cases "isIdle (sockets s ! a)")
    case True
    have s1: "trace ?s1 = trace s @ [SocketDestroy a]"
      using destroy_reap[OF Cons.prems(1) a True Cons.prems(3)] by simp
    have "trace (snd (forEach_key (k # ks) (c, s))) = trace s @ map SocketDestroy (a # ds)"
      unfolding eq ds(1) s1 by simp
    moreover have "distinct (a # ds)" using ds(2) dsR other by auto
    moreover have "set (a # ds) =
       {b. (\<exists>k\<in>set (k # ks). map_of (connections s) k = Some b) \<and> isIdle (sockets s ! b)}"
      using dsR a True by auto
    ultimately show ?thesis by blast
  next
    case False
    with va have "?s1 = s" by (simp add: destroy_skip)
    then have "trace (snd (forEach_key (k # ks) (c, s))) = trace s @ map SocketDestroy ds"
      unfolding eq ds(1) by simp
    moreover have "set ds =
       {b. (\<exists>k\<in>set (k # ks). map_of (connections s) k = Some b) \<and> isIdle (sockets s ! b)}"
      using dsR a False by auto
    ultimately show ?thesis using ds(2) by blast
  qed
qed

lemma Object_keys_set [simp]: "set (Object_keys c) = fst ` set c"
  by (simp add: Object_keys_def)

lemma Object_keys_distinct [simp]: "distinct (Object_keys c)"
  by (simp add: Object_keys_def)

subsection \<open>Flag, exit status and drain steps\<close>

lemma proc_destroy: "proc (destroy r s) = proc s \<or> proc (destroy r s) = Uncaught_TypeError"
  by (simp add: destroy_def emit_def Let_def split: option.splits)

lemma ok_destroy: "status_ok (proc s) \<Longrightarrow> status_ok (proc (destroy r s))"
  using proc_destroy[of r s] by auto

lemma ok_forEach_key: "status_ok (proc s) \<Longrightarrow> status_ok (proc (snd (forEach_key ks (c, s))))"
  by (induction ks arbitrary: c s) (simp_all add: Let_def ok_destroy)

lemma flag_forEach_key [simp]:
  "isShuttingDown (snd (forEach_key ks (c, s))) = isShuttingDown s"
  by (induction ks arbitrary: c s) (simp_all add: Let_def)

lemma proc_exit [simp]: "proc (exit s) = Exited 1"
  by (simp add: exit_def emit_def)

lemma flag_exit [simp]: "isShuttingDown (exit s) = isShuttingDown s"
  by (simp add: exit_def emit_def)

lemma flag_emit [simp]: "isShuttingDown (emit e s) = isShuttingDown s"
  by (simp add: emit_def)

lemma proc_emit [simp]: "proc (emit e s) = proc s"
  by (simp add: emit_def)

lemma flag_debug [simp]: "isShuttingDown (debug m s) = isShuttingDown s"
  by (simp add: debug_def)

lemma proc_debug [simp]: "proc (debug m s) = proc s"
  by (simp add: debug_def)

lemma flag_handleCallbackThenExit [simp]:
  "isShuttingDown (handleCallbackThenExit opts s) = isShuttingDown s"
  by (simp add: handleCallbackThenExit_def Let_def split: option.splits callback_result.splits)

lemma ok_handleCallbackThenExit:
  "status_ok (proc s) \<Longrightarrow> status_ok (proc (handleCallbackThenExit opts s))"
  by (simp add: handleCallbackThenExit_def Let_def split: option.splits callback_result.splits)

lemma normal_shutdown_eq:
  "normal_shutdown opts s =
     (let r = forEach_key (Object_keys (connections (begin_drain s))) (0, begin_drain s)
      in if proc (snd r) \<noteq> Running then snd r else end_drain opts (fst r) (snd r))"
  by (simp add: normal_shutdown_def begin_drain_def end_drain_def Let_def case_prod_beta)

lemma flag_begin_drain [simp]: "isShuttingDown (begin_drain s)"
  by (simp add: begin_drain_def Let_def debug_def emit_def)

lemma flag_end_drain [simp]: "isShuttingDown (end_drain opts c s) = isShuttingDown s"
  by (simp add: end_drain_def Let_def debug_def emit_def)

lemma flag_normal_shutdown [simp]: "isShuttingDown (normal_shutdown opts s)"
  by (simp add: normal_shutdown_eq Let_def)

lemma drain_steps_emit: "drain_steps (emit e s) = drain_steps s @ (if drain_step e then [e] else [])"
  by (simp add: drain_steps_def emit_def)

lemma drain_steps_update [simp]:
  "drain_steps (s\<lparr>sockets := x1\<rparr>) = drain_steps s"
  "drain_steps (s\<lparr>connections := x2\<rparr>) = drain_steps s"
  "drain_steps (s\<lparr>closeCallbacks := x3\<rparr>) = drain_steps s"
  "drain_steps (s\<lparr>timers := x4\<rparr>) = drain_steps s"
  "drain_steps (s\<lparr>pending := x5\<rparr>) = drain_steps s"
  "drain_steps (s\<lparr>connectionCounter := x6\<rparr>) = drain_steps s"
  "drain_steps (s\<lparr>isShuttingDown := x7\<rparr>) = drain_steps s"
  "drain_steps (s\<lparr>proc := x8\<rparr>) = drain_steps s"
  by (simp_all add: drain_steps_def)

lemma drain_steps_exit [simp]: "drain_steps (exit s) = drain_steps s"
  by (simp add: drain_steps_def exit_def emit_def)

lemma drain_steps_handleCallbackThenExit [simp]: "drain_steps (handleCallbackThenExit opts s) = drain_steps s"
  by (simp add: handleCallbackThenExit_def Let_def drain_steps_emit split: option.splits callback_result.splits)

lemma shutdown_draining:
  assumes "isShuttingDown s"
  shows "isShuttingDown (shutdown opts sig s)" and "drain_steps (shutdown opts sig s) = drain_steps s"
  using assms by (simp_all add: shutdown_def Let_def debug_def drain_steps_emit)

lemma shutdown_sets_flag:
  assumes "proc (shutdown opts sig s) = Running"
  shows "isShuttingDown (shutdown opts sig s)"
  using assms by (auto simp: shutdown_def Let_def split: if_splits)

lemma ok_normal_shutdown: "status_ok (proc s) \<Longrightarrow> status_ok (proc (normal_shutdown opts s))"
  by (simp add: normal_shutdown_eq Let_def ok_forEach_key begin_drain_def end_drain_def debug_def)

lemma ok_shutdown: "status_ok (proc s) \<Longrightarrow> status_ok (proc (shutdown opts sig s))"
  by (simp add: shutdown_def Let_def ok_normal_shutdown ok_handleCallbackThenExit)

lemma on_signal_draining:
  assumes "isShuttingDown s"
  shows "isShuttingDown (on_signal opts sig hs s) \<and> drain_steps (on_signal opts sig hs s) = drain_steps s"
  using assms by (induction hs arbitrary: s) (simp_all add: shutdown_draining)

lemma ok_on_signal: "status_ok (proc s) \<Longrightarrow> status_ok (proc (on_signal opts sig hs s))"
  by (induction hs arbitrary: s) (simp_all add: ok_shutdown)

lemma close_listeners_frame:
  "isShuttingDown (close_listeners opts n s) = isShuttingDown s
   \<and> drain_steps (close_listeners opts n s) = drain_steps s"
  by (induction n arbitrary: s) simp_all

lemma ok_close_listeners: "status_ok (proc s) \<Longrightarrow> status_ok (proc (close_listeners opts n s))"
  by (induction n arbitrary: s) (simp_all add: ok_handleCallbackThenExit)

lemma ok_step: "status_ok (proc s) \<Longrightarrow> status_ok (proc (step opts e s))"
  by (auto simp: step_def on_connection_def on_request_def on_finish_def on_close_def
      on_server_closed_def on_timeout_def on_settled_def ok_on_signal ok_close_listeners
      ok_handleCallbackThenExit ok_destroy Let_def
      split: event.splits list.splits)

lemma ok_run: "status_ok (proc s) \<Longrightarrow> status_ok (proc (run opts evs s))"
  by (induction evs arbitrary: s) (simp_all add: run_def ok_step)

lemma step_draining:
  assumes "isShuttingDown s"
  shows "isShuttingDown (step opts e s)"
  using assms
  by (auto simp: step_def on_connection_def on_request_def on_finish_def on_close_def
      on_server_closed_def on_timeout_def on_settled_def on_signal_draining close_listeners_frame
      Let_def
      split: event.splits list.splits)

lemma run_draining:
  assumes "isShuttingDown s"
  shows "isShuttingDown (run opts evs s)"
  using assms by (induction evs arbitrary: s) (simp_all add: run_def step_draining)

subsection \<open>Every handler keeps the registry well formed\<close>

lemma destroy_cases:
  "destroy r s = s
   \<or> destroy r s = s\<lparr>proc := Uncaught_TypeError\<rparr>
   \<or> (\<exists>a. r = Some a \<and> a < length (sockets s) \<and> isIdle (sockets s ! a) \<and> isShuttingDown s
        \<and> destroy r s =
            s\<lparr>sockets := (sockets s)[a := (sockets s ! a)\<lparr>destroyed := True\<rparr>],
              trace := trace s @ [SocketDestroy a],
              connections := (case connectionId (sockets s ! a) of
                                None \<Rightarrow> connections s
                              | Some i \<Rightarrow> AList.delete i (connections s))\<rparr>)"
  by (cases r) (auto simp: destroy_def emit_def Let_def split: option.splits)

lemma idle_destroy [simp]: "map isIdle (sockets (destroy r s)) = map isIdle (sockets s)"
  using destroy_cases[of r s] by (auto simp: map_update list_update_same_conv)

lemma registry_wf_delete: "registry_wf s \<Longrightarrow> registry_wf (s\<lparr>connections := AList.delete i (connections s)\<rparr>)"
  by (auto simp: registry_wf_def AList.distinct_delete set_delete)

lemma registry_wf_destroyed:
  "registry_wf s \<Longrightarrow> a < length (sockets s) \<Longrightarrow>
   registry_wf (s\<lparr>sockets := (sockets s)[a := (sockets s ! a)\<lparr>destroyed := d\<rparr>]\<rparr>)"
  by (auto simp: registry_wf_def nth_list_update)

lemma registry_wf_idle:
  "registry_wf s \<Longrightarrow> a < length (sockets s) \<Longrightarrow>
   registry_wf (s\<lparr>sockets := (sockets s)[a := (sockets s ! a)\<lparr>isIdle := d\<rparr>]\<rparr>)"
  by (auto simp: registry_wf_def nth_list_update)

lemma registry_wf_frame:
  "connections s' = connections s \<Longrightarrow> sockets s' = sockets s \<Longrightarrow> registry_wf s' = registry_wf s"
  by (simp add: registry_wf_def)

lemma registry_wf_update [simp]:
  "registry_wf (s\<lparr>closeCallbacks := x3\<rparr>) = registry_wf s"
  "registry_wf (s\<lparr>timers := x4\<rparr>) = registry_wf s"
  "registry_wf (s\<lparr>pending := x5\<rparr>) = registry_wf s"
  "registry_wf (s\<lparr>connectionCounter := x6\<rparr>) = registry_wf s"
  "registry_wf (s\<lparr>isShuttingDown := x7\<rparr>) = registry_wf s"
  "registry_wf (s\<lparr>proc := x8\<rparr>) = registry_wf s"
  "registry_wf (s\<lparr>trace := x9\<rparr>) = registry_wf s"
  by (simp_all add: registry_wf_def)

lemma registry_wf_any_destroy: "registry_wf s \<Longrightarrow> registry_wf (destroy r s)"
proof -
  assume w: "registry_wf s"
  from destroy_cases[of r s] show ?thesis
  proof (elim disjE exE conjE)
    assume "destroy r s = s" with w show ?thesis by simp
  next
    assume "destroy r s = s\<lparr>proc := Uncaught_TypeError\<rparr>"
    with w show ?thesis by (simp add: registry_wf_def)
  next
    fix a
    assume a: "a < length (sockets s)"
      and eq: "destroy r s =
            s\<lparr>sockets := (sockets s)[a := (sockets s ! a)\<lparr>destroyed := True\<rparr>],
              trace := trace s @ [SocketDestroy a],
              connections := (case connectionId (sockets s ! a) of
                                None \<Rightarrow> connections s
                              | Some i \<Rightarrow> AList.delete i (connections s))\<rparr>"
    have 1: "registry_wf (s\<lparr>sockets := (sockets s)[a := (sockets s ! a)\<lparr>destroyed := True\<rparr>]\<rparr>)"
      by (rule registry_wf_destroyed[OF w a])
    show ?thesis
    proof (cases "connectionId (sockets s ! a)")
      case None
      with 1 show ?thesis unfolding eq by (simp add: registry_wf_def)
    next
      case (Some i)
      from registry_wf_delete[OF 1, of i] show ?thesis unfolding eq Some by (simp add: registry_wf_def)
    qed
  qed
qed

lemma registry_wf_forEach_key: "registry_wf s \<Longrightarrow> registry_wf (snd (forEach_key ks (c, s)))"
  by (induction ks arbitrary: c s) (simp_all add: Let_def registry_wf_any_destroy)

lemma registry_wf_handleCallbackThenExit [simp]: "registry_wf (handleCallbackThenExit opts s) = registry_wf s"
  by (rule registry_wf_frame)
     (simp_all add: handleCallbackThenExit_def exit_def emit_def Let_def
        split: option.splits callback_result.splits)

lemma registry_wf_begin_drain [simp]: "registry_wf (begin_drain s) = registry_wf s"
  by (rule registry_wf_frame) (simp_all add: begin_drain_def debug_def emit_def Let_def)

lemma registry_wf_end_drain [simp]: "registry_wf (end_drain opts c s) = registry_wf s"
  by (rule registry_wf_frame) (simp_all add: end_drain_def debug_def emit_def Let_def)

lemma registry_wf_debug [simp]: "registry_wf (debug m s) = registry_wf s"
  by (rule registry_wf_frame) (simp_all add: debug_def emit_def)

lemma registry_wf_normal_shutdown: "registry_wf s \<Longrightarrow> registry_wf (normal_shutdown opts s)"
  by (simp add: normal_shutdown_eq Let_def registry_wf_forEach_key)

lemma registry_wf_shutdown: "registry_wf s \<Longrightarrow> registry_wf (shutdown opts sig s)"
  by (simp add: shutdown_def Let_def registry_wf_normal_shutdown)

lemma registry_wf_on_signal: "registry_wf s \<Longrightarrow> registry_wf (on_signal opts sig hs s)"
  by (induction hs arbitrary: s) (simp_all add: registry_wf_shutdown)

lemma registry_wf_close_listeners: "registry_wf s \<Longrightarrow> registry_wf (close_listeners opts n s)"
  by (induction n arbitrary: s) simp_all

lemma set_update_subset: "set (AList.update k v al) \<subseteq> insert (k, v) (set al)"
  by (induction al) auto

lemma registry_wf_on_connection: "registry_wf s \<Longrightarrow> registry_wf (on_connection s)"
proof (rule registry_wfI)
  assume w: "registry_wf s"
  then show "distinct (map fst (connections (on_connection s)))"
    by (simp add: on_connection_def Let_def registry_wf_def AList.distinct_update)
  fix k a
  assume "(k, a) \<in> set (connections (on_connection s))"
  then have "(k, a) = (connectionCounter s, length (sockets s)) \<or> (k, a) \<in> set (connections s)"
    using set_update_subset[of "connectionCounter s" "length (sockets s)" "connections s"]
    by (auto simp: on_connection_def Let_def)
  then show "a < length (sockets (on_connection s)) \<and>
        connectionId (sockets (on_connection s) ! a) = Some k"
  proof
    assume "(k, a) = (connectionCounter s, length (sockets s))"
    then show ?thesis by (simp add: on_connection_def Let_def)
  next
    assume "(k, a) \<in> set (connections s)"
    from registry_wfD[OF w this] show ?thesis by (simp add: on_connection_def Let_def nth_append)
  qed
qed

lemma registry_wf_fold_delete: "registry_wf s \<Longrightarrow> registry_wf (s\<lparr>connections := fold AList.delete ks (connections s)\<rparr>)"
proof (induction ks arbitrary: s)
  case Nil
  then show ?case by simp
next
  case (Cons k ks)
  from Cons.IH[OF registry_wf_delete[OF Cons.prems, of k]] show ?case by simp
qed

lemma registry_wf_exit [simp]: "registry_wf (exit s) = registry_wf s"
  by (simp add: exit_def emit_def)

lemma registry_wf_step: "registry_wf s \<Longrightarrow> registry_wf (step opts e s)"
proof (cases e)
  case Connection
  then show "registry_wf s \<Longrightarrow> ?thesis" by (simp add: step_def registry_wf_on_connection)
next
  case (Request a)
  then show "registry_wf s \<Longrightarrow> ?thesis" by (simp add: step_def on_request_def registry_wf_idle)
next
  case (Finish a)
  then show "registry_wf s \<Longrightarrow> ?thesis" by (simp add: step_def on_finish_def registry_wf_idle registry_wf_any_destroy)
next
  case (SocketClosed a)
  then show "registry_wf s \<Longrightarrow> ?thesis" by (simp add: step_def on_close_def registry_wf_fold_delete)
next
  case (Signal sig)
  then show "registry_wf s \<Longrightarrow> ?thesis" by (simp add: step_def registry_wf_on_signal)
next
  case ServerClosed
  then show "registry_wf s \<Longrightarrow> ?thesis"
    by (simp add: step_def on_server_closed_def registry_wf_close_listeners)
next
  case TimerFired
  then show "registry_wf s \<Longrightarrow> ?thesis"
    by (simp add: step_def on_timeout_def split: list.splits)
next
  case (Settled r)
  then show "registry_wf s \<Longrightarrow> ?thesis" by (simp add: step_def on_settled_def)
qed

lemma registry_wf_initial: "registry_wf initial"
  by (simp add: registry_wf_def initial_def)

lemma registry_wf_run: "registry_wf s \<Longrightarrow> registry_wf (run opts evs s)"
  by (induction evs arbitrary: s) (simp_all add: run_def registry_wf_step)

subsection \<open>Which sockets are destroyed\<close>

lemma gentle_refl [simp]: "gentle s s"
  by (simp add: gentle_def)

lemma same_idle:
  assumes "map isIdle xs = map isIdle ys"
  shows "length xs = length ys" and "a < length ys \<Longrightarrow> isIdle (xs ! a) = isIdle (ys ! a)"
proof -
  show l: "length xs = length ys" using assms by (rule map_eq_imp_length_eq)
  assume a: "a < length ys"
  then have "isIdle (xs ! a) = map isIdle xs ! a" using l by simp
  also have "\<dots> = isIdle (ys ! a)" using a assms by simp
  finally show "isIdle (xs ! a) = isIdle (ys ! a)" .
qed

lemma gentle_trans:
  assumes "gentle s t" "gentle t u"
  shows "gentle s u"
proof -
  from assms(1) obtain n1 where 1: "map isIdle (sockets t) = map isIdle (sockets s)"
    "isShuttingDown s \<longrightarrow> isShuttingDown t" "trace t = trace s @ n1"
    "\<And>a. SocketDestroy a \<in> set n1 \<Longrightarrow>
        a < length (sockets s) \<and> isIdle (sockets s ! a) \<and> isShuttingDown t"
    by (auto simp: gentle_def)
  from assms(2) obtain n2 where 2: "map isIdle (sockets u) = map isIdle (sockets t)"
    "isShuttingDown t \<longrightarrow> isShuttingDown u" "trace u = trace t @ n2"
    "\<And>a. SocketDestroy a \<in> set n2 \<Longrightarrow>
        a < length (sockets t) \<and> isIdle (sockets t ! a) \<and> isShuttingDown u"
    by (auto simp: gentle_def)
  have "trace u = trace s @ (n1 @ n2)" using 1(3) 2(3) by simp
  moreover have "a < length (sockets s) \<and> isIdle (sockets s ! a) \<and> isShuttingDown u"
    if "SocketDestroy a \<in> set (n1 @ n2)" for a
  proof (cases "SocketDestroy a \<in> set n1")
    case True
    from 1(4)[OF this] 2(2) show ?thesis by simp
  next
    case False
    with that have "SocketDestroy a \<in> set n2" by simp
    from 2(4)[OF this] same_idle[OF 1(1)] show ?thesis by auto
  qed
  ultimately show ?thesis using 1(1,2) 2(1,2) unfolding gentle_def by (metis (no_types, lifting))
qed

lemma gentle_quiet:
  assumes "sockets s' = sockets s" "isShuttingDown s \<longrightarrow> isShuttingDown s'"
    "trace s' = trace s @ new" "\<And>a. SocketDestroy a \<notin> set new"
  shows "gentle s s'"
  using assms unfolding gentle_def by auto

lemma gentle_destroy: "gentle s (destroy r s)"
  using destroy_cases[of r s]
proof (elim disjE exE conjE)
  assume "destroy r s = s" then show ?thesis by simp
next
  assume "destroy r s = s\<lparr>proc := Uncaught_TypeError\<rparr>"
  then show ?thesis by (simp add: gentle_def)
next
  fix a
  assume "a < length (sockets s)" "isIdle (sockets s ! a)" "isShuttingDown s"
    and eq: "destroy r s =
            s\<lparr>sockets := (sockets s)[a := (sockets s ! a)\<lparr>destroyed := True\<rparr>],
              trace := trace s @ [SocketDestroy a],
              connections := (case connectionId (sockets s ! a) of
                                None \<Rightarrow> connections s
                              | Some i \<Rightarrow> AList.delete i (connections s))\<rparr>"
  then show ?thesis
    unfolding gentle_def eq by (simp add: map_update list_update_same_conv)
qed

lemma gentle_forEach_key: "gentle s (snd (forEach_key ks (c, s)))"
proof (induction ks arbitrary: c s)
  case Nil
  show ?case by simp
next
  case (Cons k ks)
  let ?s1 = "destroy (map_of (connections s) k) s"
  show ?case
  proof (cases "proc ?s1 = Running")
    case True
    from gentle_trans[OF gentle_destroy Cons.IH[of ?s1 "c + 1"]] True
    show ?thesis by (simp add: Let_def)
  next
    case False
    with gentle_destroy[of s "map_of (connections s) k"] show ?thesis by (simp add: Let_def)
  qed
qed

lemma gentle_exit: "gentle s (exit s)"
  by (rule gentle_quiet[where new = "[ProcessExit 1]"]) (simp_all add: exit_def emit_def)

lemma gentle_handleCallbackThenExit: "gentle s (handleCallbackThenExit opts s)"
proof (cases "callback opts")
  case None
  then show ?thesis by (simp add: handleCallbackThenExit_def gentle_exit)
next
  case (Some cb)
  show ?thesis
  proof (cases cb)
    case Returns_plain
    show ?thesis
      by (rule gentle_quiet[where new = "[CallbackCall, ProcessExit 1]"])
         (simp_all add: handleCallbackThenExit_def Some Returns_plain exit_def emit_def)
  next
    case Returns_thenable
    show ?thesis
      by (rule gentle_quiet[where new = "[CallbackCall]"])
         (simp_all add: handleCallbackThenExit_def Some Returns_thenable emit_def)
  qed
qed

lemma gentle_debug: "gentle s (debug m s)"
  by (rule gentle_quiet[where new = "[Debug m]"]) (simp_all add: debug_def emit_def)

lemma gentle_begin_drain: "gentle s (begin_drain s)"
  by (rule gentle_quiet[where new = "[Debug Shutting_down, ServerClose]"])
     (simp_all add: begin_drain_def debug_def emit_def Let_def)

lemma gentle_end_drain: "gentle s (end_drain opts c s)"
  by (rule gentle_quiet[where new = "[Debug (Connections_destroyed c),
        Debug (Connection_counter (connectionCounter s)), SetTimeout (timeout opts)]"])
     (simp_all add: end_drain_def debug_def emit_def Let_def)

lemma gentle_normal_shutdown: "gentle s (normal_shutdown opts s)"
  unfolding normal_shutdown_eq Let_def
  by (auto intro: gentle_trans[OF gentle_begin_drain gentle_forEach_key]
        gentle_trans[OF gentle_trans[OF gentle_begin_drain gentle_forEach_key] gentle_end_drain])

lemma gentle_shutdown: "gentle s (shutdown opts sig s)"
proof -
  let ?s1 = "debug (Shutdown_signal sig) s"
  let ?s2 = "if development opts then handleCallbackThenExit opts (debug Dev_mode ?s1) else ?s1"
  have 2: "gentle s ?s2"
    by (auto intro: gentle_debug gentle_trans[OF gentle_debug gentle_trans[OF gentle_debug gentle_handleCallbackThenExit]])
  have "gentle s (normal_shutdown opts ?s2)"
    by (rule gentle_trans[OF 2 gentle_normal_shutdown])
  with 2 show ?thesis by (simp add: shutdown_def Let_def)
qed

lemma gentle_on_signal: "gentle s (on_signal opts sig hs s)"
proof (induction hs arbitrary: s)
  case Nil
  show ?case by simp
next
  case (Cons h hs)
  show ?case
    using Cons.IH[of s] gentle_trans[OF gentle_shutdown Cons.IH]
    by simp
qed

lemma gentle_close_listeners: "gentle s (close_listeners opts n s)"
proof (induction n arbitrary: s)
  case 0
  show ?case by simp
next
  case (Suc n)
  show ?case using gentle_trans[OF gentle_handleCallbackThenExit Suc.IH] by simp
qed

lemma gentle_post:
  assumes "gentle s s'"
  shows "\<exists>new. trace s' = trace s @ new
     \<and> (\<forall>a. SocketDestroy a \<in> set new \<longrightarrow>
           a < length (sockets s') \<and> isIdle (sockets s' ! a) \<and> isShuttingDown s'
           \<and> isIdle (sockets s ! a))"
proof -
  from assms obtain new where n: "map isIdle (sockets s') = map isIdle (sockets s)"
    "trace s' = trace s @ new"
    "\<And>a. SocketDestroy a \<in> set new \<Longrightarrow>
        a < length (sockets s) \<and> isIdle (sockets s ! a) \<and> isShuttingDown s'"
    by (auto simp: gentle_def)
  have "a < length (sockets s') \<and> isIdle (sockets s' ! a) \<and> isShuttingDown s'
           \<and> isIdle (sockets s ! a)" if "SocketDestroy a \<in> set new" for a
    using n(3)[OF that] same_idle[OF n(1)] by auto
  with n(2) show ?thesis by blast
qed

lemma finalizer_trace:
  "\<exists>new. trace (handleCallbackThenExit opts s) = trace s @ new
       \<and> set new \<subseteq> {CallbackCall, ProcessExit 1}"
  by (cases "callback opts")
     (auto simp: handleCallbackThenExit_def exit_def emit_def Let_def split: callback_result.splits)

subsection \<open>One call of \<open>shutdown\<close>, the first and the later ones\<close>

lemma sweep_noop:
  assumes "registry_wf s" "\<not> isShuttingDown s" "proc s = Running"
    "set ks \<subseteq> fst ` set (connections s)"
  shows "snd (forEach_key ks (c, s)) = s"
  using assms(4)
proof (induction ks arbitrary: c)
  case Nil
  show ?case by simp
next
  case (Cons k ks)
  from Cons.prems have "map_of (connections s) k \<noteq> None"
    by (simp add: map_of_eq_None_iff)
  then obtain a where a: "map_of (connections s) k = Some a" by auto
  then have "(k, a) \<in> set (connections s)" by (rule map_of_SomeD)
  from registry_wfD[OF assms(1) this] assms(2)
  have same: "destroy (Some a) s = s" by (simp add: destroy_skip)
  from Cons.prems have "set ks \<subseteq> fst ` set (connections s)" by simp
  from Cons.IH[OF this, of "Suc c"] show ?case
    by (simp add: a same assms(3))
qed

lemma registered_sockets:
  assumes "distinct (map fst al)"
  shows "(\<exists>k\<in>fst ` set al. map_of al k = Some b) \<longleftrightarrow> b \<in> snd ` set al"
proof
  assume "\<exists>k\<in>fst ` set al. map_of al k = Some b"
  then obtain k where "map_of al k = Some b" by blast
  then have "(k, b) \<in> set al" by (rule map_of_SomeD)
  then show "b \<in> snd ` set al" by force
next
  assume "b \<in> snd ` set al"
  then obtain k where kb: "(k, b) \<in> set al" by auto
  with assms have "map_of al k = Some b" by (rule map_of_is_SomeI)
  moreover from kb have "k \<in> fst ` set al" by force
  ultimately show "\<exists>k\<in>fst ` set al. map_of al k = Some b" by blast
qed

lemma forEach_key_counter:
  "proc (snd (forEach_key ks (c, s))) = Running \<Longrightarrow> fst (forEach_key ks (c, s)) = c + length ks"
  by (induction ks arbitrary: c s) (simp_all add: Let_def split: if_splits)

lemma forEach_key_trace:
  "\<exists>ds. trace (snd (forEach_key ks (c, s))) = trace s @ map SocketDestroy ds"
proof (induction ks arbitrary: c s)
  case Nil
  show ?case by simp
next
  case (Cons k ks)
  let ?s1 = "destroy (map_of (connections s) k) s"
  from destroy_cases[of "map_of (connections s) k" s]
  obtain d1 where d1: "trace ?s1 = trace s @ map SocketDestroy d1"
  proof (elim disjE exE conjE)
    assume "?s1 = s" then have "trace ?s1 = trace s @ map SocketDestroy []" by simp
    then show ?thesis by (rule that)
  next
    assume "?s1 = s\<lparr>proc := Uncaught_TypeError\<rparr>"
    then have "trace ?s1 = trace s @ map SocketDestroy []" by simp
    then show ?thesis by (rule that)
  next
    fix a
    assume "?s1 =
            s\<lparr>sockets := (sockets s)[a := (sockets s ! a)\<lparr>destroyed := True\<rparr>],
              trace := trace s @ [SocketDestroy a],
              connections := (case connectionId (sockets s ! a) of
                                None \<Rightarrow> connections s
                              | Some i \<Rightarrow> AList.delete i (connections s))\<rparr>"
    then have "trace ?s1 = trace s @ map SocketDestroy [a]" by simp
    then show ?thesis by (rule that)
  qed
  show ?case
  proof (cases "proc ?s1 = Running")
    case True
    from Cons.IH[of "c + 1" ?s1] obtain ds
      where "trace (snd (forEach_key ks (c + 1, ?s1))) = trace ?s1 @ map SocketDestroy ds" by blast
    then have "trace (snd (forEach_key (k # ks) (c, s))) = trace s @ map SocketDestroy (d1 @ ds)"
      using True d1 by (simp add: Let_def)
    then show ?thesis by blast
  next
    case False
    then have "trace (snd (forEach_key (k # ks) (c, s))) = trace s @ map SocketDestroy d1"
      using d1 by (simp add: Let_def)
    then show ?thesis by blast
  qed
qed

lemma destroy_frame [simp]:
  "closeCallbacks (destroy r s) = closeCallbacks s"
  "timers (destroy r s) = timers s"
  "pending (destroy r s) = pending s"
  "connectionCounter (destroy r s) = connectionCounter s"
  by (simp_all add: destroy_def emit_def Let_def split: option.splits)

lemma forEach_key_frame:
  "closeCallbacks (snd (forEach_key ks (c, s))) = closeCallbacks s
   \<and> timers (snd (forEach_key ks (c, s))) = timers s
   \<and> pending (snd (forEach_key ks (c, s))) = pending s
   \<and> connectionCounter (snd (forEach_key ks (c, s))) = connectionCounter s"
  by (induction ks arbitrary: c s) (simp_all add: Let_def)

lemma shutdown_eq:
  "shutdown opts sig s =
     (if proc (before_drain opts sig s) \<noteq> Running then before_drain opts sig s
      else if \<not> isShuttingDown (before_drain opts sig s)
           then normal_shutdown opts (before_drain opts sig s)
           else before_drain opts sig s)"
  by (simp add: shutdown_def before_drain_def Let_def)

lemma before_drain_frame:
  "connections (before_drain opts sig s) = connections s"
  "sockets (before_drain opts sig s) = sockets s"
  "timers (before_drain opts sig s) = timers s"
  "closeCallbacks (before_drain opts sig s) = closeCallbacks s"
  "connectionCounter (before_drain opts sig s) = connectionCounter s"
  "isShuttingDown (before_drain opts sig s) = isShuttingDown s"
  "drain_steps (before_drain opts sig s) = drain_steps s"
  by (simp_all add: before_drain_def handleCallbackThenExit_def exit_def debug_def emit_def
        drain_steps_def Let_def split: option.splits callback_result.splits)

lemma begin_drain_frame:
  "connections (begin_drain s) = connections s"
  "sockets (begin_drain s) = sockets s"
  "timers (begin_drain s) = timers s"
  "closeCallbacks (begin_drain s) = closeCallbacks s + 1"
  "proc (begin_drain s) = proc s"
  "trace (begin_drain s) = trace s @ [Debug Shutting_down, ServerClose]"
  by (simp_all add: begin_drain_def debug_def emit_def Let_def)

lemma end_drain_frame:
  "connections (end_drain opts c s) = connections s"
  "sockets (end_drain opts c s) = sockets s"
  "timers (end_drain opts c s) = timers s @ [timeout opts]"
  "closeCallbacks (end_drain opts c s) = closeCallbacks s"
  "proc (end_drain opts c s) = proc s"
  "trace (end_drain opts c s) = trace s @ [Debug (Connections_destroyed c),
      Debug (Connection_counter (connectionCounter s)), SetTimeout (timeout opts)]"
  by (simp_all add: end_drain_def debug_def emit_def Let_def)

lemma shutdown_first:
  assumes "\<not> isShuttingDown s" "proc (shutdown opts sig s) = Running"
  shows "proc (before_drain opts sig s) = Running"
    and "proc (snd (forEach_key (Object_keys (connections s))
                 (0, begin_drain (before_drain opts sig s)))) = Running"
    and "shutdown opts sig s =
           end_drain opts (length (Object_keys (connections s)))
             (snd (forEach_key (Object_keys (connections s))
                 (0, begin_drain (before_drain opts sig s))))"
proof -
  let ?s2 = "before_drain opts sig s"
  let ?r = "forEach_key (Object_keys (connections s)) (0, begin_drain ?s2)"
  show p2: "proc ?s2 = Running"
    using assms(2) by (auto simp: shutdown_eq split: if_splits)
  have n: "shutdown opts sig s = normal_shutdown opts ?s2"
    using p2 assms(1) by (simp add: shutdown_eq before_drain_frame)
  have ns: "normal_shutdown opts ?s2 =
      (if proc (snd ?r) \<noteq> Running then snd ?r else end_drain opts (fst ?r) (snd ?r))"
    by (simp add: normal_shutdown_eq Let_def begin_drain_frame before_drain_frame)
  show p3: "proc (snd ?r) = Running"
    using assms(2) unfolding n ns by (auto simp: end_drain_frame split: if_splits)
  from forEach_key_counter[OF p3] have "fst ?r = length (Object_keys (connections s))" by simp
  with p3 show "shutdown opts sig s =
           end_drain opts (length (Object_keys (connections s))) (snd ?r)"
    unfolding n ns by simp
qed

lemma shutdown_again:
  assumes "isShuttingDown t"
  shows "connections (shutdown opts sig t) = connections t"
    and "sockets (shutdown opts sig t) = sockets t"
    and "timers (shutdown opts sig t) = timers t"
    and "closeCallbacks (shutdown opts sig t) = closeCallbacks t"
  using assms by (simp_all add: shutdown_eq before_drain_frame)

lemma fold_shutdown_again:
  assumes "isShuttingDown t"
  shows "isShuttingDown (fold (shutdown opts) sigs t)
       \<and> drain_steps (fold (shutdown opts) sigs t) = drain_steps t
       \<and> connections (fold (shutdown opts) sigs t) = connections t
       \<and> sockets (fold (shutdown opts) sigs t) = sockets t
       \<and> timers (fold (shutdown opts) sigs t) = timers t
       \<and> closeCallbacks (fold (shutdown opts) sigs t) = closeCallbacks t"
  using assms
proof (induction sigs arbitrary: t)
  case Nil
  then show ?case by simp
next
  case (Cons sig sigs)
  from Cons.IH[OF shutdown_draining(1)[OF Cons.prems, of opts sig]]
  show ?case
    by (simp add: shutdown_draining(2)[OF Cons.prems] shutdown_again[OF Cons.prems])
qed


lemma run_gone: "proc s \<noteq> Running \<Longrightarrow> run opts evs s = s"
  by (induction evs) (simp_all add: run_def step_def)

lemma close_listeners_exit:
  assumes "proc s = Running" "callback opts \<noteq> Some Returns_thenable" "0 < n"
  shows "close_listeners opts n s = handleCallbackThenExit opts s"
    and "proc (handleCallbackThenExit opts s) = Exited 1"
proof -
  show p: "proc (handleCallbackThenExit opts s) = Exited 1"
    using assms(2)
    by (cases "callback opts")
       (auto simp: handleCallbackThenExit_def Let_def split: callback_result.splits)
  from assms(3) obtain m where "n = Suc m" by (cases n) auto
  moreover have "close_listeners opts m (handleCallbackThenExit opts s) = handleCallbackThenExit opts s"
    using p by (cases m) simp_all
  ultimately show "close_listeners opts n s = handleCallbackThenExit opts s"
    using assms(1) by simp
qed

lemma development_mode_exits_at_once:
  assumes "development opts" "callback opts \<noteq> Some Returns_thenable"
  shows "shutdown opts sig s =
           handleCallbackThenExit opts (debug Dev_mode (debug (Shutdown_signal sig) s))"
    and "proc (shutdown opts sig s) = Exited 1"
    and "drain_steps (shutdown opts sig s) = drain_steps s"
proof -
  have p: "proc (before_drain opts sig s) = Exited 1"
    using assms
    by (cases "callback opts")
       (auto simp: before_drain_def handleCallbackThenExit_def Let_def split: callback_result.splits)
  then show "shutdown opts sig s =
           handleCallbackThenExit opts (debug Dev_mode (debug (Shutdown_signal sig) s))"
    using assms(1) by (simp add: shutdown_eq) (simp add: before_drain_def)
  with p show "proc (shutdown opts sig s) = Exited 1"
    using assms(1) by (simp add: before_drain_def)
  show "drain_steps (shutdown opts sig s) = drain_steps s"
    using p by (simp add: shutdown_eq before_drain_frame)
qed


text \<open>
  Outside development mode, and in development mode with a callback that returns a
  promise, a call of \<open>shutdown\<close> in a live process with a well-formed registry
  returns with the process alive.
\<close>

lemma shutdown_survives:
  assumes "registry_wf s" "proc s = Running"
    and "\<not> development opts \<or> callback opts = Some Returns_thenable"
  shows "proc (shutdown opts sig s) = Running"
proof -
  let ?s2 = "before_drain opts sig s"
  have p2: "proc ?s2 = Running"
    using assms(2,3)
    by (auto simp: before_drain_def handleCallbackThenExit_def emit_def Let_def)
  show ?thesis
  proof (cases "isShuttingDown ?s2")
    case True
    with p2 show ?thesis by (simp add: shutdown_eq)
  next
    case False
    let ?b = "begin_drain ?s2"
    let ?ks = "Object_keys (connections ?b)"
    have cb: "connections ?b = connections s" and sb: "sockets ?b = sockets s"
      by (simp_all add: begin_drain_frame before_drain_frame)
    have w: "registry_wf ?b" using assms(1) registry_wf_frame[OF cb sb] by simp
    have p: "proc ?b = Running" using p2 by (simp add: begin_drain_frame)
    have d: "distinct ?ks" and sub: "set ?ks \<subseteq> fst ` set (connections ?b)" by simp_all
    from sweep_inv[OF w p d sub, of 0]
    have "proc (snd (forEach_key ?ks (0, ?b))) = Running" by simp
    then have "proc (normal_shutdown opts ?s2) = Running"
      by (simp add: normal_shutdown_eq Let_def end_drain_frame)
    with p2 False show ?thesis by (simp add: shutdown_eq)
  qed
qed

subsection \<open>Idle marks and requests in progress\<close>

text \<open>
  As long as the requests on every connection are serial, a socket is marked idle exactly
  when no request is in progress on it, and no handler destroys a socket with a request
  in progress.
\<close>

lemma serial_from_snoc:
  "serial_from t (es @ [e]) = (serial_from t es \<and> one_at_a_time (fold track_step es t) e)"
  by (induction es arbitrary: t) simp_all

lemma serial_snoc:
  "serial (evs @ [e]) = (serial evs \<and> one_at_a_time (open_requests evs) e)"
  by (simp add: serial_def open_requests_def serial_from_snoc)

lemma open_requests_snoc: "open_requests (evs @ [e]) = track_step e (open_requests evs)"
  by (simp add: open_requests_def)

lemma run_snoc: "run opts (evs @ [e]) s = step opts e (run opts evs s)"
  by (simp add: run_def)

lemma step_gone: "proc s \<noteq> Running \<Longrightarrow> step opts e s = s"
  by (simp add: step_def)

lemma gentle_idle: "gentle s s' \<Longrightarrow> map isIdle (sockets s') = map isIdle (sockets s)"
  by (simp add: gentle_def)

lemma marks_step:
  assumes "proc s = Running" "map isIdle (sockets s) = map (\<lambda>n. n = 0) t" "one_at_a_time t e"
  shows "map isIdle (sockets (step opts e s)) = map (\<lambda>n. n = 0) (track_step e t)"
proof -
  from assms(2) have len: "length (sockets s) = length t" by (rule map_eq_imp_length_eq)
  show ?thesis
  proof (cases e)
    case Connection
    then show ?thesis using assms(1,2) by (simp add: step_def on_connection_def Let_def)
  next
    case (Request a)
    then show ?thesis using assms len
      by (simp add: step_def on_request_def map_update)
  next
    case (Finish a)
    then show ?thesis using assms len
      by (simp add: step_def on_finish_def map_update)
  next
    case (SocketClosed a)
    then show ?thesis using assms by (simp add: step_def on_close_def)
  next
    case (Signal sig)
    then show ?thesis using assms gentle_idle[OF gentle_on_signal[of s opts sig "subscribed opts"]]
      by (simp add: step_def)
  next
    case ServerClosed
    then show ?thesis
      using assms
        gentle_idle[OF gentle_close_listeners[of "s\<lparr>closeCallbacks := 0\<rparr>" opts "closeCallbacks s"]]
      by (simp add: step_def on_server_closed_def)
  next
    case TimerFired
    show ?thesis
    proof (cases "timers s")
      case Nil
      then show ?thesis using TimerFired assms by (simp add: step_def on_timeout_def)
    next
      case (Cons d ds)
      then show ?thesis
        using TimerFired assms
          gentle_idle[OF gentle_handleCallbackThenExit[of
              "debug (Could_not_close (timeout opts)) (s\<lparr>timers := ds\<rparr>)" opts]]
        by (simp add: step_def on_timeout_def debug_def emit_def)
    qed
  next
    case (Settled r)
    then show ?thesis using assms gentle_idle[OF gentle_exit[of "s\<lparr>pending := pending s - 1\<rparr>"]]
      by (simp add: step_def on_settled_def)
  qed
qed

lemma marks_follow_requests:
  assumes "serial evs" "proc (run opts evs initial) = Running"
  shows "map isIdle (sockets (run opts evs initial)) = map (\<lambda>n. n = 0) (open_requests evs)"
  using assms
proof (induction evs rule: rev_induct)
  case Nil
  show ?case by (simp add: run_def initial_def open_requests_def)
next
  case (snoc e evs)
  let ?s = "run opts evs initial"
  have p: "proc ?s = Running"
  proof (rule ccontr)
    assume "proc ?s \<noteq> Running"
    then have "step opts e ?s = ?s" by (rule step_gone)
    with snoc.prems(2) \<open>proc ?s \<noteq> Running\<close> show False by (simp add: run_snoc)
  qed
  from snoc.prems(1) have s: "serial evs" and o: "one_at_a_time (open_requests evs) e"
    by (simp_all add: serial_snoc)
  from marks_step[OF p snoc.IH[OF s p] o, of opts]
  show ?case by (simp add: run_snoc open_requests_snoc)
qed

lemma gentle_pre:
  assumes "gentle s0 s'" "sockets s0 = sockets s" "trace s0 = trace s"
  shows "\<exists>new. trace s' = trace s @ new
     \<and> (\<forall>a. SocketDestroy a \<in> set new \<longrightarrow> a < length (sockets s) \<and> isIdle (sockets s ! a))"
  using assms unfolding gentle_def by auto

lemma step_destroys:
  assumes "proc s = Running"
  shows "\<exists>new. trace (step opts e s) = trace s @ new
     \<and> (\<forall>a. SocketDestroy a \<in> set new \<longrightarrow>
           a < length (sockets s)
           \<and> (e = Finish a \<or> (track_step e = (\<lambda>t. t) \<and> isIdle (sockets s ! a))))"
proof (cases e)
  case Connection
  then have "trace (step opts e s) = trace s @ []"
    using assms by (simp add: step_def on_connection_def Let_def)
  then show ?thesis by fastforce
next
  case (Request b)
  then have "trace (step opts e s) = trace s @ []"
    using assms by (simp add: step_def on_request_def)
  then show ?thesis by fastforce
next
  case (SocketClosed b)
  then have "trace (step opts e s) = trace s @ []"
    using assms by (simp add: step_def on_close_def)
  then show ?thesis by fastforce
next
  case (Finish b)
  show ?thesis
  proof (cases "b < length (sockets s)")
    case False
    then have "trace (step opts e s) = trace s @ []"
      using assms Finish by (simp add: step_def)
    then show ?thesis by fastforce
  next
    case True
    let ?s0 = "s\<lparr>sockets := (sockets s)[b := (sockets s ! b)\<lparr>isIdle := True\<rparr>]\<rparr>"
    have st: "step opts e s = destroy (Some b) ?s0"
      using assms Finish True by (simp add: step_def on_finish_def)
    from destroy_cases[of "Some b" ?s0]
    have "trace (destroy (Some b) ?s0) = trace s @ []
        \<or> trace (destroy (Some b) ?s0) = trace s @ [SocketDestroy b]"
      by (elim disjE exE conjE) simp_all
    then show ?thesis unfolding st using Finish True by fastforce
  qed
next
  case (Signal sig)
  then have st: "step opts e s = on_signal opts sig (subscribed opts) s"
    and tr: "track_step e = (\<lambda>t. t)"
    using assms by (simp_all add: step_def fun_eq_iff)
  from gentle_pre[OF gentle_on_signal[of s opts sig "subscribed opts"] refl refl]
  show ?thesis unfolding st tr by auto
next
  case ServerClosed
  let ?s0 = "s\<lparr>closeCallbacks := 0\<rparr>"
  have st: "step opts e s = close_listeners opts (closeCallbacks s) ?s0"
    and tr: "track_step e = (\<lambda>t. t)"
    using assms ServerClosed by (simp_all add: step_def on_server_closed_def fun_eq_iff)
  have "sockets ?s0 = sockets s" "trace ?s0 = trace s" by simp_all
  from gentle_pre[OF gentle_close_listeners[of ?s0 opts "closeCallbacks s"] this]
  show ?thesis unfolding st tr by auto
next
  case TimerFired
  show ?thesis
  proof (cases "timers s")
    case Nil
    then have "trace (step opts e s) = trace s @ []"
      using assms TimerFired by (simp add: step_def on_timeout_def)
    then show ?thesis by fastforce
  next
    case (Cons d ds)
    let ?s0 = "debug (Could_not_close (timeout opts)) (s\<lparr>timers := ds\<rparr>)"
    have st: "step opts e s = handleCallbackThenExit opts ?s0"
      using assms TimerFired Cons by (simp add: step_def on_timeout_def)
    from finalizer_trace[of opts ?s0] obtain new
      where "trace (handleCallbackThenExit opts ?s0) = trace ?s0 @ new"
        "set new \<subseteq> {CallbackCall, ProcessExit 1}" by blast
    then have "trace (step opts e s) = trace s @ (Debug (Could_not_close (timeout opts)) # new)"
      "\<forall>a. SocketDestroy a \<notin> set (Debug (Could_not_close (timeout opts)) # new)"
      unfolding st by (auto simp: debug_def emit_def)
    then show ?thesis by blast
  qed
next
  case (Settled r)
  then have tr: "track_step e = (\<lambda>t. t)" by (simp add: fun_eq_iff)
  have "trace (step opts e s) = trace s @ [] \<or> trace (step opts e s) = trace s @ [ProcessExit 1]"
    using assms Settled by (simp add: step_def on_settled_def exit_def emit_def)
  then show ?thesis by fastforce
qed

lemma no_destroy_with_request_open:
  assumes "serial (evs @ [e])"
  shows "\<exists>new. trace (run opts (evs @ [e]) initial) = trace (run opts evs initial) @ new
     \<and> (\<forall>a. SocketDestroy a \<in> set new \<longrightarrow>
           a < length (open_requests (evs @ [e])) \<and> open_requests (evs @ [e]) ! a = 0)"
proof (cases "proc (run opts evs initial) = Running")
  case False
  then have "trace (run opts (evs @ [e]) initial) = trace (run opts evs initial) @ []"
    by (simp add: run_snoc step_gone)
  then show ?thesis by fastforce
next
  case True
  let ?s = "run opts evs initial" and ?t = "open_requests evs"
  from assms have s: "serial evs" and o: "one_at_a_time ?t e" by (simp_all add: serial_snoc)
  have m: "map isIdle (sockets ?s) = map (\<lambda>n. n = 0) ?t"
    by (rule marks_follow_requests[OF s True])
  then have len: "length (sockets ?s) = length ?t" by (rule map_eq_imp_length_eq)
  from step_destroys[OF True, of opts e] obtain new
    where new: "trace (step opts e ?s) = trace ?s @ new"
      "\<And>a. SocketDestroy a \<in> set new \<Longrightarrow>
           a < length (sockets ?s)
           \<and> (e = Finish a \<or> (track_step e = (\<lambda>t. t) \<and> isIdle (sockets ?s ! a)))"
    by blast
  have "a < length (track_step e ?t) \<and> track_step e ?t ! a = 0"
    if "SocketDestroy a \<in> set new" for a
  proof -
    from new(2)[OF that] have a: "a < length ?t"
      and c: "e = Finish a \<or> (track_step e = (\<lambda>t. t) \<and> isIdle (sockets ?s ! a))"
      using len by simp_all
    from c show ?thesis
    proof
      assume "e = Finish a"
      with o a show ?thesis by simp
    next
      assume h: "track_step e = (\<lambda>t. t) \<and> isIdle (sockets ?s ! a)"
      have "isIdle (sockets ?s ! a) = (map isIdle (sockets ?s)) ! a" using a len by simp
      also have "\<dots> = (?t ! a = 0)" unfolding m using a by simp
      finally show ?thesis using h a by simp
    qed
  qed
  with new(1) show ?thesis by (auto simp: run_snoc open_requests_snoc)
qed

text \<open>A settled promise of the callback ends the process, whatever arrives later.\<close>

lemma settled_promise_exits:
  assumes "proc s = Running" "0 < pending s"
  shows "proc (step opts (Settled r) s) = Exited 1"
    and "run opts evs (step opts (Settled r) s) = step opts (Settled r) s"
proof -
  show p: "proc (step opts (Settled r) s) = Exited 1"
    using assms by (simp add: step_def on_settled_def)
  then show "run opts evs (step opts (Settled r) s) = step opts (Settled r) s"
    by (simp add: run_gone)
qed

subsection \<open>Evaluation\<close>

text \<open>The equations that evaluate a run on concrete events.\<close>

lemmas handler_defs =
  run_def step_def on_connection_def on_request_def on_finish_def on_close_def
  on_server_closed_def on_timeout_def on_settled_def shutdown_def normal_shutdown_def
  handleCallbackThenExit_def exit_def destroy_def emit_def debug_def Object_keys_def
  defaults_def subscribed_def initial_def Let_def

section \<open>The drain sequence runs once\<close>

text \<open>
  \<^bold>\<open>C1\<close>. Let \<open>shutdown\<close> be called with the flag not set, and let the process
  survive the call. Then the flag is set and the call has made the drain sequence once:
  it closed the listener, swept the registry (destroying some sockets and logging the
  count) and armed one timer, registering one close listener. However many times
  \<open>shutdown\<close> is called afterwards, the drain steps in the trace, the registry, the
  sockets, the timers and the close listeners stay as the first call left them. More
  generally a call of \<open>shutdown\<close> in any state with the flag set adds no drain step
  and changes none of these. A first call that the process does not survive (development
  mode with no callback or a plain one) is followed by no other call; in every other
  configuration the process survives it (\<open>shutdown_survives\<close>).
\<close>

theorem drain_sequence_runs_once:
  assumes "\<not> isShuttingDown s" and "proc (shutdown opts sig s) = Running"
  shows "isShuttingDown (shutdown opts sig s)
       \<and> (\<exists>ds. drain_steps (shutdown opts sig s) =
                 drain_steps s @ [ServerClose] @ map SocketDestroy ds
                   @ [Debug (Connections_destroyed (length (Object_keys (connections s)))),
                      SetTimeout (timeout opts)])
       \<and> closeCallbacks (shutdown opts sig s) = closeCallbacks s + 1
       \<and> timers (shutdown opts sig s) = timers s @ [timeout opts]
       \<and> drain_steps (fold (shutdown opts) sigs (shutdown opts sig s))
            = drain_steps (shutdown opts sig s)
       \<and> connections (fold (shutdown opts) sigs (shutdown opts sig s))
            = connections (shutdown opts sig s)
       \<and> sockets (fold (shutdown opts) sigs (shutdown opts sig s))
            = sockets (shutdown opts sig s)
       \<and> timers (fold (shutdown opts) sigs (shutdown opts sig s))
            = timers (shutdown opts sig s)
       \<and> closeCallbacks (fold (shutdown opts) sigs (shutdown opts sig s))
            = closeCallbacks (shutdown opts sig s)
       \<and> (isShuttingDown t \<longrightarrow>
            drain_steps (shutdown opts sig' t) = drain_steps t
            \<and> connections (shutdown opts sig' t) = connections t
            \<and> sockets (shutdown opts sig' t) = sockets t
            \<and> timers (shutdown opts sig' t) = timers t
            \<and> closeCallbacks (shutdown opts sig' t) = closeCallbacks t)"
proof -
  let ?s2 = "before_drain opts sig s"
  let ?ks = "Object_keys (connections s)"
  let ?s3 = "snd (forEach_key ?ks (0, begin_drain ?s2))"
  note first = shutdown_first[OF assms]
  have flag: "isShuttingDown (shutdown opts sig s)"
    using assms(2) by (rule shutdown_sets_flag)
  from forEach_key_trace[of ?ks 0 "begin_drain ?s2"] obtain ds
    where ds: "trace ?s3 = trace (begin_drain ?s2) @ map SocketDestroy ds" by blast
  have filt: "filter drain_step (map SocketDestroy ds) = map SocketDestroy ds"
    by (induction ds) simp_all
  have "drain_steps (shutdown opts sig s) =
          drain_steps ?s2 @ [ServerClose] @ map SocketDestroy ds
            @ [Debug (Connections_destroyed (length ?ks)), SetTimeout (timeout opts)]"
    unfolding first(3) by (simp add: drain_steps_def end_drain_frame ds begin_drain_frame filt)
  then have steps: "drain_steps (shutdown opts sig s) =
          drain_steps s @ [ServerClose] @ map SocketDestroy ds
            @ [Debug (Connections_destroyed (length ?ks)), SetTimeout (timeout opts)]"
    by (simp add: before_drain_frame)
  have frame_cc: "closeCallbacks ?s3 = closeCallbacks (begin_drain ?s2)"
    and frame_t: "timers ?s3 = timers (begin_drain ?s2)"
    using forEach_key_frame[of ?ks 0 "begin_drain ?s2"] by simp_all
  have cc: "closeCallbacks (shutdown opts sig s) = closeCallbacks s + 1"
    unfolding first(3) by (simp add: end_drain_frame frame_cc begin_drain_frame before_drain_frame)
  have tm: "timers (shutdown opts sig s) = timers s @ [timeout opts]"
    unfolding first(3) by (simp add: end_drain_frame frame_t begin_drain_frame before_drain_frame)
  note again = fold_shutdown_again[OF flag, of opts sigs]
  have later: "isShuttingDown t \<longrightarrow>
            drain_steps (shutdown opts sig' t) = drain_steps t
            \<and> connections (shutdown opts sig' t) = connections t
            \<and> sockets (shutdown opts sig' t) = sockets t
            \<and> timers (shutdown opts sig' t) = timers t
            \<and> closeCallbacks (shutdown opts sig' t) = closeCallbacks t"
    using shutdown_draining(2) shutdown_again by blast
  from flag steps cc tm again later show ?thesis by blast
qed

theorem drain_sequence_runs_once_witness:
  "\<not> isShuttingDown (run (defaults None) [Connection, Connection, Request 1] initial)
   \<and> proc (shutdown (defaults None) ''SIGINT''
        (run (defaults None) [Connection, Connection, Request 1] initial)) = Running
   \<and> isShuttingDown (shutdown (defaults None) ''SIGINT''
        (run (defaults None) [Connection, Connection, Request 1] initial))
   \<and> drain_steps (fold (shutdown (defaults None)) [''SIGTERM'', ''SIGINT'']
        (shutdown (defaults None) ''SIGINT''
          (run (defaults None) [Connection, Connection, Request 1] initial)))
      = [ServerClose, SocketDestroy 0, Debug (Connections_destroyed 2), SetTimeout 30000]"
  using drain_sequence_runs_once [of
      "run (defaults None) [Connection, Connection, Request 1] initial"
      "defaults None" "''SIGINT''" "[''SIGTERM'', ''SIGINT'']"
      "shutdown (defaults None) ''SIGINT''
          (run (defaults None) [Connection, Connection, Request 1] initial)" "''SIGTERM''"]
  by (simp add: handler_defs drain_steps_def)

section \<open>Development mode\<close>

text \<open>
  \<^bold>\<open>C2\<close>. The specification states that a trigger in development mode finalizes at once and
  performs no draining step. With a callback that returns a promise, \<open>shutdown\<close> calls
  the callback and, the process being still alive, goes on into the normal shutdown. The
  run below has one idle connection and development mode on: the trigger closes the
  listener, destroys the socket and arms the timer, and the process has not exited. (With
  no callback, or one that returns a plain value, the process exits inside the first
  call: \<open>development_mode_exits_at_once\<close>.)
\<close>

theorem development_mode_with_promise_drains:
  "trace (run (defaults (Some \<lparr>opt_signals = None, opt_timeout = None,
                              opt_development = Some True,
                              opt_callback = Some Returns_thenable\<rparr>))
            [Connection, Signal ''SIGINT''] initial)
     = [Debug (Shutdown_signal ''SIGINT''), Debug Dev_mode, CallbackCall, Debug Shutting_down,
        ServerClose, SocketDestroy 0, Debug (Connections_destroyed 1),
        Debug (Connection_counter 1), SetTimeout 30000]
   \<and> proc (run (defaults (Some \<lparr>opt_signals = None, opt_timeout = None,
                              opt_development = Some True,
                              opt_callback = Some Returns_thenable\<rparr>))
            [Connection, Signal ''SIGINT''] initial) = Running"
  by (simp add: handler_defs)

section \<open>Finalization\<close>

text \<open>
  \<^bold>\<open>C3\<close>. Finalization ends the process with exit status 1, whatever the options.
  With no callback the finalizer calls \<open>process.exit(1)\<close> at once; with a callback
  that returns a plain value it calls the callback and then \<open>process.exit(1)\<close>; with a
  callback that returns a promise it calls the callback and waits, and the promise
  resolving and the promise rejecting both end in \<open>process.exit(1)\<close>. No sequence of
  events makes a live process exit with another status.
\<close>

theorem finalizer_exits_with_status_1:
  assumes "proc s = Running"
  shows "handleCallbackThenExit (opts\<lparr>callback := None\<rparr>) s
           = s\<lparr>proc := Exited 1, trace := trace s @ [ProcessExit 1]\<rparr>
       \<and> handleCallbackThenExit (opts\<lparr>callback := Some Returns_plain\<rparr>) s
           = s\<lparr>proc := Exited 1, trace := trace s @ [CallbackCall, ProcessExit 1]\<rparr>
       \<and> handleCallbackThenExit (opts\<lparr>callback := Some Returns_thenable\<rparr>) s
           = s\<lparr>pending := pending s + 1, trace := trace s @ [CallbackCall]\<rparr>
       \<and> step (opts\<lparr>callback := Some Returns_thenable\<rparr>) (Settled Resolved)
                 (handleCallbackThenExit (opts\<lparr>callback := Some Returns_thenable\<rparr>) s)
           = s\<lparr>proc := Exited 1, trace := trace s @ [CallbackCall, ProcessExit 1]\<rparr>
       \<and> step (opts\<lparr>callback := Some Returns_thenable\<rparr>) (Settled Rejected)
                 (handleCallbackThenExit (opts\<lparr>callback := Some Returns_thenable\<rparr>) s)
           = s\<lparr>proc := Exited 1, trace := trace s @ [CallbackCall, ProcessExit 1]\<rparr>
       \<and> (proc (run opts evs s) = Exited c \<longrightarrow> c = 1)"
proof -
  have "status_ok (proc (run opts evs s))"
    using assms by (simp add: ok_run)
  then have "proc (run opts evs s) = Exited c \<longrightarrow> c = 1" by auto
  then show ?thesis
    using assms
    by (simp add: handleCallbackThenExit_def step_def on_settled_def exit_def emit_def)
qed

theorem finalizer_exits_with_status_1_witness:
  "proc initial = Running
   \<and> proc (handleCallbackThenExit (defaults None) initial) = Exited 1
   \<and> proc (run (defaults None) [Signal ''SIGINT'', ServerClosed] initial) = Exited 1"
  using finalizer_exits_with_status_1 [of initial "defaults None"
      "[Signal ''SIGINT'', ServerClosed]" 1]
  by (simp add: handler_defs)

section \<open>A response finishing while draining\<close>



section \<open>The sweep over the registry\<close>

text \<open>
  \<^bold>\<open>C5\<close>. The loop of \<open>shutdown\<close> over the keys of the registry, run in a live
  process on a well-formed registry. With the flag not set it changes nothing. With the
  flag set it destroys every registered socket that is marked idle, each once, and no
  other socket; it deletes exactly the entries of those sockets; the busy connections
  keep their entries, and their sockets are untouched.
\<close>

theorem reaper_pass:
  assumes "registry_wf s" and "proc s = Running"
  shows "(\<not> isShuttingDown s \<longrightarrow>
            snd (forEach_key (Object_keys (connections s)) (c, s)) = s)
       \<and> (isShuttingDown s \<longrightarrow>
            connections (snd (forEach_key (Object_keys (connections s)) (c, s)))
              = filter (\<lambda>(k, a). \<not> isIdle (sockets s ! a)) (connections s)
          \<and> length (sockets (snd (forEach_key (Object_keys (connections s)) (c, s))))
              = length (sockets s)
          \<and> (\<forall>a < length (sockets s).
                sockets (snd (forEach_key (Object_keys (connections s)) (c, s))) ! a
                  = (if a \<in> snd ` set (connections s) \<and> isIdle (sockets s ! a)
                     then (sockets s ! a)\<lparr>destroyed := True\<rparr> else sockets s ! a))
          \<and> (\<exists>ds. trace (snd (forEach_key (Object_keys (connections s)) (c, s)))
                      = trace s @ map SocketDestroy ds
                  \<and> distinct ds
                  \<and> set ds = {a \<in> snd ` set (connections s). isIdle (sockets s ! a)})
          \<and> proc (snd (forEach_key (Object_keys (connections s)) (c, s))) = Running)"
proof (intro conjI impI)
  let ?ks = "Object_keys (connections s)"
  let ?s' = "snd (forEach_key ?ks (c, s))"
  have sub: "set ?ks \<subseteq> fst ` set (connections s)" and d: "distinct ?ks" by simp_all
  have dk: "distinct (map fst (connections s))" using assms(1) by (simp add: registry_wf_def)
  show "?s' = s" if "\<not> isShuttingDown s"
    by (rule sweep_noop[OF assms(1) that assms(2) sub])
  show "connections ?s' = filter (\<lambda>(k, a). \<not> isIdle (sockets s ! a)) (connections s)"
    if f: "isShuttingDown s"
    unfolding sweep_connections[OF assms f d sub]
    by (rule filter_cong) force+
  show "length (sockets ?s') = length (sockets s)" if "isShuttingDown s"
    using sweep_inv[OF assms d sub, of c] by simp
  show "proc ?s' = Running" if "isShuttingDown s"
    using sweep_inv[OF assms d sub, of c] by simp
  show "\<forall>a < length (sockets s). sockets ?s' ! a
          = (if a \<in> snd ` set (connections s) \<and> isIdle (sockets s ! a)
             then (sockets s ! a)\<lparr>destroyed := True\<rparr> else sockets s ! a)"
    if f: "isShuttingDown s"
  proof (intro allI impI)
    fix a assume "a < length (sockets s)"
    from sweep_sockets[OF assms f d sub this, of c] registered_sockets[OF dk, of a]
    show "sockets ?s' ! a
          = (if a \<in> snd ` set (connections s) \<and> isIdle (sockets s ! a)
             then (sockets s ! a)\<lparr>destroyed := True\<rparr> else sockets s ! a)"
      by simp
  qed
  show "\<exists>ds. trace ?s' = trace s @ map SocketDestroy ds \<and> distinct ds
            \<and> set ds = {a \<in> snd ` set (connections s). isIdle (sockets s ! a)}"
    if f: "isShuttingDown s"
  proof -
    from sweep_trace[OF assms f d sub, of c] obtain ds
      where ds: "trace ?s' = trace s @ map SocketDestroy ds" "distinct ds"
        "set ds = {b. (\<exists>k\<in>set ?ks. map_of (connections s) k = Some b) \<and> isIdle (sockets s ! b)}"
      by blast
    have "set ds = {a \<in> snd ` set (connections s). isIdle (sockets s ! a)}"
      unfolding ds(3) using registered_sockets[OF dk] by auto
    with ds(1,2) show ?thesis by blast
  qed
qed

theorem reaper_pass_witness:
  "registry_wf (run (defaults None) [Signal ''SIGINT'', Connection, Connection, Request 1] initial)
   \<and> proc (run (defaults None) [Signal ''SIGINT'', Connection, Connection, Request 1] initial) = Running
   \<and> isShuttingDown (run (defaults None) [Signal ''SIGINT'', Connection, Connection, Request 1] initial)
   \<and> connections (run (defaults None) [Signal ''SIGINT'', Connection, Connection, Request 1] initial)
        = [(0, 0), (1, 1)]
   \<and> connections (snd (forEach_key [0, 1]
          (0, run (defaults None) [Signal ''SIGINT'', Connection, Connection, Request 1] initial)))
        = [(1, 1)]
   \<and> registry_wf (run (defaults None) [Connection] initial)
   \<and> \<not> isShuttingDown (run (defaults None) [Connection] initial)
   \<and> snd (forEach_key [0] (0, run (defaults None) [Connection] initial))
        = run (defaults None) [Connection] initial"
  using reaper_pass [of "run (defaults None) [Signal ''SIGINT'', Connection, Connection, Request 1] initial" 0]
    reaper_pass [of "run (defaults None) [Connection] initial" 0]
  by (simp add: handler_defs registry_wf_def)

section \<open>The listener's close callback and the timer\<close>

text \<open>
  \<^bold>\<open>C6\<close>. The specification states that the later of the two arrivals never runs the
  finalizer a second time. The finalizer has no guard of its own; only the exit of the
  process stops a second run, and a callback that returns a promise puts that exit off
  until the promise settles. In the run below the promise is still pending when the timer
  fires after the server has closed: the callback is called once from the close callback
  and once more from the timer, whose log line says the connections could not be closed
  in time.
\<close>

theorem finalizer_runs_twice:
  "trace (run (defaults (Some \<lparr>opt_signals = None, opt_timeout = None, opt_development = None,
                              opt_callback = Some Returns_thenable\<rparr>))
            [Signal ''SIGINT'', ServerClosed, TimerFired] initial)
     = [Debug (Shutdown_signal ''SIGINT''), Debug Shutting_down, ServerClose,
        Debug (Connections_destroyed 0), Debug (Connection_counter 0), SetTimeout 30000,
        CallbackCall, Debug (Could_not_close 30000), CallbackCall]"
  by (simp add: handler_defs)

text \<open>
  With no callback, or a callback that returns a plain value, the first arrival ends the
  process inside the finalizer and the other arrival changes nothing; so does a promise
  that settles before the other arrival (\<open>settled_promise_exits\<close>).
\<close>

theorem first_finalizer_exits_later_is_noop:
  assumes "proc s = Running" and "callback opts \<noteq> Some Returns_thenable"
    and "0 < closeCallbacks s" and "timers s \<noteq> []"
  shows "proc (step opts ServerClosed s) = Exited 1
       \<and> trace (step opts ServerClosed s) =
            trace s @ (case callback opts of None \<Rightarrow> [ProcessExit 1]
                                          | Some cb \<Rightarrow> [CallbackCall, ProcessExit 1])
       \<and> step opts TimerFired (step opts ServerClosed s) = step opts ServerClosed s
       \<and> run opts evs (step opts ServerClosed s) = step opts ServerClosed s
       \<and> proc (step opts TimerFired s) = Exited 1
       \<and> trace (step opts TimerFired s) =
            trace s @ Debug (Could_not_close (timeout opts))
              # (case callback opts of None \<Rightarrow> [ProcessExit 1]
                                    | Some cb \<Rightarrow> [CallbackCall, ProcessExit 1])
       \<and> step opts ServerClosed (step opts TimerFired s) = step opts TimerFired s
       \<and> run opts evs (step opts TimerFired s) = step opts TimerFired s"
proof -
  let ?c = "step opts ServerClosed s" and ?t = "step opts TimerFired s"
  have c: "?c = handleCallbackThenExit opts (s\<lparr>closeCallbacks := 0\<rparr>)"
    using assms(1) close_listeners_exit(1)[of "s\<lparr>closeCallbacks := 0\<rparr>" opts "closeCallbacks s"]
      assms(2,3)
    by (simp add: step_def on_server_closed_def)
  have pc: "proc ?c = Exited 1"
    unfolding c using close_listeners_exit(2)[of "s\<lparr>closeCallbacks := 0\<rparr>" opts 1] assms(1,2)
    by simp
  have tc: "trace ?c = trace s @ (case callback opts of None \<Rightarrow> [ProcessExit 1]
                                          | Some cb \<Rightarrow> [CallbackCall, ProcessExit 1])"
    unfolding c using assms(2)
    by (cases "callback opts")
       (auto simp: handleCallbackThenExit_def exit_def emit_def Let_def split: callback_result.splits)
  from assms(4) obtain d ds where ds: "timers s = d # ds" by (cases "timers s") auto
  let ?s0 = "debug (Could_not_close (timeout opts)) (s\<lparr>timers := ds\<rparr>)"
  have t: "?t = handleCallbackThenExit opts ?s0"
    using assms(1) ds by (simp add: step_def on_timeout_def)
  have pt: "proc ?t = Exited 1"
    unfolding t using close_listeners_exit(2)[of ?s0 opts 1] assms(1,2) by simp
  have tt: "trace ?t = trace s @ Debug (Could_not_close (timeout opts))
              # (case callback opts of None \<Rightarrow> [ProcessExit 1]
                                    | Some cb \<Rightarrow> [CallbackCall, ProcessExit 1])"
    unfolding t using assms(2)
    by (cases "callback opts")
       (auto simp: handleCallbackThenExit_def exit_def emit_def debug_def Let_def
          split: callback_result.splits)
  have "step opts TimerFired ?c = ?c" using pc by (simp add: step_def)
  moreover have "run opts evs ?c = ?c" using pc by (simp add: run_gone)
  moreover have "step opts ServerClosed ?t = ?t" using pt by (simp add: step_def)
  moreover have "run opts evs ?t = ?t" using pt by (simp add: run_gone)
  ultimately show ?thesis using pc tc pt tt by simp
qed

theorem first_finalizer_exits_later_is_noop_witness:
  "proc (shutdown (defaults None) ''SIGINT'' initial) = Running
   \<and> callback (defaults None) \<noteq> Some Returns_thenable
   \<and> 0 < closeCallbacks (shutdown (defaults None) ''SIGINT'' initial)
   \<and> timers (shutdown (defaults None) ''SIGINT'' initial) \<noteq> []
   \<and> proc (step (defaults None) ServerClosed (shutdown (defaults None) ''SIGINT'' initial)) = Exited 1
   \<and> step (defaults None) TimerFired
        (step (defaults None) ServerClosed (shutdown (defaults None) ''SIGINT'' initial))
      = step (defaults None) ServerClosed (shutdown (defaults None) ''SIGINT'' initial)"
  using first_finalizer_exits_later_is_noop [of "shutdown (defaults None) ''SIGINT'' initial"
      "defaults None" "[]"]
  by (simp add: handler_defs)

section \<open>The draining flag\<close>

text \<open>
  \<^bold>\<open>C7\<close>. The specification states that the flag \<open>isShuttingDown\<close> starts false, is
  set by the first shutdown trigger and is never cleared. In development mode with no
  callback the first trigger ends the process in the development branch, before the flag
  is assigned: the flag is still false when the process is gone.
\<close>

theorem first_trigger_in_development_mode_leaves_flag_unset:
  "isShuttingDown (run (defaults (Some \<lparr>opt_signals = None, opt_timeout = None,
                                       opt_development = Some True, opt_callback = None\<rparr>))
                     [Signal ''SIGINT''] initial) = False
   \<and> proc (run (defaults (Some \<lparr>opt_signals = None, opt_timeout = None,
                               opt_development = Some True, opt_callback = None\<rparr>))
             [Signal ''SIGINT''] initial) = Exited 1"
  by (simp add: handler_defs)

text \<open>
  \<^bold>\<open>C7\<close>, as the code has it. The flag is false in the initial state. A call of
  \<open>shutdown\<close> in a live process sets it whenever the process survives the call, so in
  every call outside development mode and in every call with a callback that returns a
  promise; in development mode with no callback or a plain one the call leaves the flag
  as it was and ends the process. Once the flag is set, no event (a new connection, a
  request, the end of a response, a socket closing, a signal, the server's close event,
  the timer, a settled promise), no sequence of events, no further call of \<open>shutdown\<close>
  and no run of the finalizer clears it.
\<close>

theorem draining_flag_one_way:
  "\<not> isShuttingDown initial
   \<and> (proc (shutdown opts sig s) = Running \<longrightarrow> isShuttingDown (shutdown opts sig s))
   \<and> (proc s = Running \<and> \<not> development opts \<longrightarrow> isShuttingDown (shutdown opts sig s))
   \<and> (proc s = Running \<and> callback opts = Some Returns_thenable
        \<longrightarrow> isShuttingDown (shutdown opts sig s))
   \<and> (development opts \<and> callback opts \<noteq> Some Returns_thenable
        \<longrightarrow> isShuttingDown (shutdown opts sig s) = isShuttingDown s
            \<and> (proc s = Running \<longrightarrow> proc (shutdown opts sig s) = Exited 1))
   \<and> (isShuttingDown s \<longrightarrow>
         isShuttingDown (step opts e s) \<and> isShuttingDown (run opts evs s)
         \<and> isShuttingDown (shutdown opts sig s)
         \<and> isShuttingDown (handleCallbackThenExit opts s))"
proof (intro conjI impI)
  show "\<not> isShuttingDown initial" by (simp add: initial_def)
  show "isShuttingDown (shutdown opts sig s)" if "proc (shutdown opts sig s) = Running"
    using that by (rule shutdown_sets_flag)
  show "isShuttingDown (shutdown opts sig s)" if "proc s = Running \<and> \<not> development opts"
    using that by (simp add: shutdown_def Let_def)
  show "isShuttingDown (shutdown opts sig s)"
    if "proc s = Running \<and> callback opts = Some Returns_thenable"
    using that
    by (simp add: shutdown_def handleCallbackThenExit_def emit_def debug_def Let_def)
  show "isShuttingDown (shutdown opts sig s) = isShuttingDown s"
    if "development opts \<and> callback opts \<noteq> Some Returns_thenable"
    using that development_mode_exits_at_once(1)[of opts sig s] by simp
  show "proc (shutdown opts sig s) = Exited 1"
    if "development opts \<and> callback opts \<noteq> Some Returns_thenable" "proc s = Running"
    using that development_mode_exits_at_once(2)[of opts sig s] by simp
  show "isShuttingDown (step opts e s)" if "isShuttingDown s"
    using that by (rule step_draining)
  show "isShuttingDown (run opts evs s)" if "isShuttingDown s"
    using that by (rule run_draining)
  show "isShuttingDown (shutdown opts sig s)" if "isShuttingDown s"
    using that by (rule shutdown_draining(1))
  show "isShuttingDown (handleCallbackThenExit opts s)" if "isShuttingDown s"
    using that by simp
qed

theorem draining_flag_one_way_witness:
  "\<not> isShuttingDown initial
   \<and> proc initial = Running
   \<and> \<not> development (defaults None)
   \<and> proc (shutdown (defaults None) ''SIGINT'' initial) = Running
   \<and> isShuttingDown (shutdown (defaults None) ''SIGINT'' initial)
   \<and> isShuttingDown (step (defaults None) TimerFired (shutdown (defaults None) ''SIGINT'' initial))
   \<and> isShuttingDown (run (defaults None) [Connection, Request 0, Finish 0, Signal ''SIGTERM'',
          ServerClosed] (shutdown (defaults None) ''SIGINT'' initial))
   \<and> callback (defaults (Some \<lparr>opt_signals = None, opt_timeout = None,
          opt_development = Some True, opt_callback = Some Returns_thenable\<rparr>))
        = Some Returns_thenable
   \<and> isShuttingDown (shutdown (defaults (Some \<lparr>opt_signals = None, opt_timeout = None,
          opt_development = Some True, opt_callback = Some Returns_thenable\<rparr>)) ''SIGINT'' initial)
   \<and> development (defaults (Some \<lparr>opt_signals = None, opt_timeout = None,
          opt_development = Some True, opt_callback = None\<rparr>))
   \<and> callback (defaults (Some \<lparr>opt_signals = None, opt_timeout = None,
          opt_development = Some True, opt_callback = None\<rparr>)) \<noteq> Some Returns_thenable
   \<and> \<not> isShuttingDown (shutdown (defaults (Some \<lparr>opt_signals = None, opt_timeout = None,
          opt_development = Some True, opt_callback = None\<rparr>)) ''SIGINT'' initial)
   \<and> proc (shutdown (defaults (Some \<lparr>opt_signals = None, opt_timeout = None,
          opt_development = Some True, opt_callback = None\<rparr>)) ''SIGINT'' initial) = Exited 1"
  using draining_flag_one_way [of "defaults None" "''SIGINT''" initial]
    draining_flag_one_way [of "defaults None" "''SIGINT''" "shutdown (defaults None) ''SIGINT'' initial"
       TimerFired "[Connection, Request 0, Finish 0, Signal ''SIGTERM'', ServerClosed]"]
    draining_flag_one_way [of "defaults (Some \<lparr>opt_signals = None, opt_timeout = None,
          opt_development = Some True, opt_callback = Some Returns_thenable\<rparr>)" "''SIGINT''" initial]
    draining_flag_one_way [of "defaults (Some \<lparr>opt_signals = None, opt_timeout = None,
          opt_development = Some True, opt_callback = None\<rparr>)" "''SIGINT''" initial]
  by (simp add: handler_defs)

section \<open>The count logged after the sweep\<close>

text \<open>
  \<^bold>\<open>C8\<close>. The specification states that the count of a sweep is the number of connections it
  closed. The loop increments \<open>counter\<close> for every key before it calls \<open>destroy\<close>,
  and the line logged is \<open>'Connections destroyed : ' + counter\<close>. With one busy
  connection the sweep destroys nothing, the connection stays registered, and the line
  says 1.
\<close>

theorem count_includes_busy_connections:
  "trace (run (defaults None) [Connection, Request 0, Signal ''SIGINT''] initial)
     = [Debug (Shutdown_signal ''SIGINT''), Debug Shutting_down, ServerClose,
        Debug (Connections_destroyed 1), Debug (Connection_counter 1), SetTimeout 30000]
   \<and> destroyed (sockets (run (defaults None) [Connection, Request 0, Signal ''SIGINT''] initial) ! 0)
       = False
   \<and> connections (run (defaults None) [Connection, Request 0, Signal ''SIGINT''] initial) = [(0, 0)]"
  by (simp add: handler_defs)

section \<open>Options and their defaults\<close>

text \<open>
  \<^bold>\<open>C9\<close>. An option the caller leaves out takes its documented default: with no options
  object at all, or with \<open>signals\<close> omitted, the process is subscribed to \<open>SIGINT\<close>
  and \<open>SIGTERM\<close>; an omitted \<open>timeout\<close> is 30000 milliseconds; an omitted
  \<open>development\<close> is false. The other options of the object do not matter.
\<close>

theorem defaults_when_omitted:
  "defaults None =
     \<lparr>signals = ''SIGINT SIGTERM'', timeout = 30000, development = False, callback = None\<rparr>
   \<and> subscribed (defaults None) = [''SIGINT'', ''SIGTERM'']
   \<and> signals (defaults (Some (r\<lparr>opt_signals := None\<rparr>))) = ''SIGINT SIGTERM''
   \<and> subscribed (defaults (Some (r\<lparr>opt_signals := None\<rparr>))) = [''SIGINT'', ''SIGTERM'']
   \<and> timeout (defaults (Some (r\<lparr>opt_timeout := None\<rparr>))) = 30000
   \<and> development (defaults (Some (r\<lparr>opt_development := None\<rparr>))) = False"
  by (simp add: defaults_def subscribed_def)

section \<open>Busy sockets\<close>

text \<open>
  \<^bold>\<open>C10\<close>. The specification states that a connection in the middle of a
  request/response cycle is never forcibly closed. The library keeps one boolean per
  socket, and the end of any response sets it. With two requests in progress on one
  connection, the end of the first response marks the socket idle: while draining, the
  finish handler destroys it at once, and a sweep that starts after that response destroys
  it too, in both runs with one request still unanswered.
\<close>

theorem socket_destroyed_with_request_open:
  "trace (run (defaults None)
            [Connection, Request 0, Request 0, Signal ''SIGINT'', Finish 0] initial)
     = [Debug (Shutdown_signal ''SIGINT''), Debug Shutting_down, ServerClose,
        Debug (Connections_destroyed 1), Debug (Connection_counter 1), SetTimeout 30000,
        SocketDestroy 0]
   \<and> open_requests [Connection, Request 0, Request 0, Signal ''SIGINT'', Finish 0] = [1]
   \<and> trace (run (defaults None)
            [Connection, Request 0, Request 0, Finish 0, Signal ''SIGINT''] initial)
     = [Debug (Shutdown_signal ''SIGINT''), Debug Shutting_down, ServerClose, SocketDestroy 0,
        Debug (Connections_destroyed 1), Debug (Connection_counter 1), SetTimeout 30000]
   \<and> open_requests [Connection, Request 0, Request 0, Finish 0, Signal ''SIGINT''] = [1]"
  by (simp add: handler_defs open_requests_def)

text \<open>
  What the guard in \<open>destroy\<close> does ensure. Whatever event is delivered in whatever
  state, every \<open>socket.destroy()\<close> the handler makes is on a socket that is marked
  idle, with the flag set, and the socket was already marked idle before the event unless
  the event is the end of a response on that very socket. The timer firing destroys no
  socket at all: that path only runs the finalizer. The helper \<open>destroy\<close> changes
  nothing when the socket is marked busy or the flag is not set. For serial requests the
  mark is exact, and no socket with a request in progress is destroyed
  (\<open>no_destroy_with_request_open\<close>).
\<close>

theorem only_idle_sockets_destroyed:
  "(\<exists>new. trace (step opts e s) = trace s @ new
      \<and> (\<forall>a. SocketDestroy a \<in> set new \<longrightarrow>
            a < length (sockets (step opts e s))
            \<and> isIdle (sockets (step opts e s) ! a)
            \<and> isShuttingDown (step opts e s)
            \<and> (isIdle (sockets s ! a) \<or> e = Finish a))
      \<and> (e = TimerFired \<longrightarrow> (\<forall>a. SocketDestroy a \<notin> set new)))
   \<and> (b < length (sockets s) \<and> \<not> (isIdle (sockets s ! b) \<and> isShuttingDown s)
        \<longrightarrow> destroy (Some b) s = s)"
proof (intro conjI)
  show "b < length (sockets s) \<and> \<not> (isIdle (sockets s ! b) \<and> isShuttingDown s)
        \<longrightarrow> destroy (Some b) s = s"
    using destroy_skip[of b s] by blast
next
  let ?P = "\<lambda>new. trace (step opts e s) = trace s @ new
      \<and> (\<forall>a. SocketDestroy a \<in> set new \<longrightarrow>
            a < length (sockets (step opts e s))
            \<and> isIdle (sockets (step opts e s) ! a)
            \<and> isShuttingDown (step opts e s)
            \<and> (isIdle (sockets s ! a) \<or> e = Finish a))
      \<and> (e = TimerFired \<longrightarrow> (\<forall>a. SocketDestroy a \<notin> set new))"
  show "\<exists>new. ?P new"
  proof (cases "proc s = Running")
    case False
    then have "?P []" by (simp add: step_def)
    then show ?thesis ..
  next
    case run: True
    show ?thesis
    proof (cases e)
      case Connection
      then have "?P []" using run by (simp add: step_def on_connection_def Let_def)
      then show ?thesis ..
    next
      case (Request a)
      then have "?P []" using run by (simp add: step_def on_request_def)
      then show ?thesis ..
    next
      case (SocketClosed a)
      then have "?P []" using run by (simp add: step_def on_close_def)
      then show ?thesis ..
    next
      case (Finish a)
      show ?thesis
      proof (cases "a < length (sockets s)")
        case False
        then have "?P []" using run Finish by (simp add: step_def)
        then show ?thesis ..
      next
        case True
        let ?s0 = "s\<lparr>sockets := (sockets s)[a := (sockets s ! a)\<lparr>isIdle := True\<rparr>]\<rparr>"
        have st: "step opts e s = destroy (Some a) ?s0"
          using run Finish True by (simp add: step_def on_finish_def)
        from destroy_cases[of "Some a" ?s0] show ?thesis
        proof (elim disjE exE conjE)
          assume "destroy (Some a) ?s0 = ?s0"
          then have "?P []" using Finish st by simp
          then show ?thesis ..
        next
          assume "destroy (Some a) ?s0 = ?s0\<lparr>proc := Uncaught_TypeError\<rparr>"
          then have "?P []" using Finish st by simp
          then show ?thesis ..
        next
          fix a'
          assume "Some a = Some a'" "isShuttingDown ?s0"
            and eq: "destroy (Some a) ?s0 =
              ?s0\<lparr>sockets := (sockets ?s0)[a' := (sockets ?s0 ! a')\<lparr>destroyed := True\<rparr>],
                trace := trace ?s0 @ [SocketDestroy a'],
                connections := (case connectionId (sockets ?s0 ! a') of
                                None \<Rightarrow> connections ?s0
                              | Some i \<Rightarrow> AList.delete i (connections ?s0))\<rparr>"
          then have "?P [SocketDestroy a]" using Finish True unfolding st eq by simp
          then show ?thesis ..
        qed
      qed
    next
      case (Signal sig)
      then have st: "step opts e s = on_signal opts sig (subscribed opts) s"
        using run by (simp add: step_def)
      from gentle_post[OF gentle_on_signal[of s opts sig "subscribed opts"]]
      show ?thesis unfolding st using Signal by auto
    next
      case ServerClosed
      let ?s0 = "s\<lparr>closeCallbacks := 0\<rparr>"
      have st: "step opts e s = close_listeners opts (closeCallbacks s) ?s0"
        using run ServerClosed by (simp add: step_def on_server_closed_def)
      from gentle_post[OF gentle_close_listeners[of ?s0 opts "closeCallbacks s"]]
      show ?thesis unfolding st using ServerClosed by auto
    next
      case TimerFired
      show ?thesis
      proof (cases "timers s")
        case Nil
        then have "?P []" using run TimerFired by (simp add: step_def on_timeout_def)
        then show ?thesis ..
      next
        case (Cons t ts)
        let ?s0 = "debug (Could_not_close (timeout opts)) (s\<lparr>timers := ts\<rparr>)"
        have st: "step opts e s = handleCallbackThenExit opts ?s0"
          using run TimerFired Cons by (simp add: step_def on_timeout_def)
        from finalizer_trace[of opts ?s0] obtain new
          where new: "trace (handleCallbackThenExit opts ?s0) = trace ?s0 @ new"
            "set new \<subseteq> {CallbackCall, ProcessExit 1}" by blast
        have "?P (Debug (Could_not_close (timeout opts)) # new)"
          unfolding st using new by (auto simp: debug_def emit_def)
        then show ?thesis ..
      qed
    next
      case (Settled r)
      then have "?P [ProcessExit 1] \<or> ?P []"
        using run by (simp add: step_def on_settled_def exit_def emit_def)
      then show ?thesis by blast
    qed
  qed
qed

theorem only_idle_sockets_destroyed_witness:
  "trace (step (defaults None) (Finish 0)
            (run (defaults None) [Connection, Request 0, Signal ''SIGINT''] initial))
     = trace (run (defaults None) [Connection, Request 0, Signal ''SIGINT''] initial)
         @ [SocketDestroy 0]
   \<and> \<not> isIdle (sockets (run (defaults None) [Connection, Request 0, Signal ''SIGINT''] initial) ! 0)
   \<and> isIdle (sockets (step (defaults None) (Finish 0)
            (run (defaults None) [Connection, Request 0, Signal ''SIGINT''] initial)) ! 0)
   \<and> isShuttingDown (step (defaults None) (Finish 0)
            (run (defaults None) [Connection, Request 0, Signal ''SIGINT''] initial))"
  using only_idle_sockets_destroyed [of "defaults None" "Finish 0"
      "run (defaults None) [Connection, Request 0, Signal ''SIGINT''] initial" 0]
  by (simp add: handler_defs)

end
